theory Spec2Isabelle
  imports Main
begin

section \<open>Values, task functions and task nodes\<close>

text \<open>
  The notebook \<^verbatim>\<open>notebooks/02-custom-etl.ipynb\<close> defines six placeholder task
  functions (cell 3), wraps each of them with \<^verbatim>\<open>dask.delayed\<close> (cell 4), builds a
  task graph with ordinary loops (cell 5, and again with larger sizes in cell 12) and
  submits the terminal node to a scheduler (cells 10 and 12).

  Python values that flow through the graph: \<^verbatim>\<open>None\<close>, strings (file names and
  the SQL address) and lists (the argument of \<^verbatim>\<open>reduction\<close>).
\<close>

datatype pyval = PNone | PStr string | PList "pyval list"

datatype pyerr = IndexError | TypeError

text \<open>
  Cell 3. Every body sleeps for a random time and then runs \<^verbatim>\<open>pass\<close>, so it
  returns \<^verbatim>\<open>None\<close> whatever it is given. The sleep only takes time and is not
  part of the value semantics; the bodies run in the worker processes, so their calls of
  \<^verbatim>\<open>random.random()\<close> are not draws of the notebook's own generator.
\<close>

definition load :: "pyval \<Rightarrow> pyval" where
  "load address = PNone"

definition load_from_sql :: "pyval \<Rightarrow> pyval" where
  "load_from_sql address = PNone"

definition process :: "pyval \<Rightarrow> pyval \<Rightarrow> pyval" where
  "process dat ref = PNone"

definition roll :: "pyval \<Rightarrow> pyval \<Rightarrow> pyval \<Rightarrow> pyval" where
  "roll a b c = PNone"

definition compare :: "pyval \<Rightarrow> pyval \<Rightarrow> pyval" where
  "compare a b = PNone"

definition reduction :: "pyval \<Rightarrow> pyval" where
  "reduction seq = PNone"

text \<open>The identity of a task: which of the six functions a node defers.\<close>

datatype func = Load | Load_from_sql | Process | Roll | Compare | Reduction

text \<open>
  Calling a Python function with positional arguments: a call with the wrong number of
  arguments raises \<^verbatim>\<open>TypeError\<close>.
\<close>

fun call_task :: "func \<Rightarrow> pyval list \<Rightarrow> pyerr + pyval" where
  "call_task Load [address] = Inr (load address)"
| "call_task Load_from_sql [address] = Inr (load_from_sql address)"
| "call_task Process [dat, ref] = Inr (process dat ref)"
| "call_task Roll [a, b, c] = Inr (roll a b c)"
| "call_task Compare [a, b] = Inr (compare a b)"
| "call_task Reduction [seq] = Inr (reduction seq)"
| "call_task f xs = Inl TypeError"

text \<open>
  A deferred value is identified by the key of the node that produces it. An argument
  of a wrapped call is a concrete value, a deferred value, or an ordinary list whose
  elements are again arguments (\<^verbatim>\<open>reduction(compared)\<close> passes a list of deferred
  values).
\<close>

type_synonym key = nat

datatype arg = Concrete pyval | Deferred key | Container "arg list"

record node =
  fn :: func
  args :: "arg list"

fun arg_keys :: "arg \<Rightarrow> key list" where
  "arg_keys (Concrete v) = []"
| "arg_keys (Deferred k) = [k]"
| "arg_keys (Container xs) = concat (map arg_keys xs)"

definition node_deps :: "node \<Rightarrow> key list" where
  "node_deps n = concat (map arg_keys (args n))"

section \<open>The deferred task wrapper\<close>

text \<open>
  The notebook session: the task nodes recorded so far, in creation order, and the
  number of draws made from the random generator. The key of a node is its position in
  \<open>tasks\<close>.
\<close>

record session =
  tasks :: "node list"
  rng_pos :: nat

definition new_session :: session where
  "new_session = \<lparr>tasks = [], rng_pos = 0\<rparr>"

text \<open>
  Modelled from the spec: \<^verbatim>\<open>dask.delayed\<close> is a library function and is not part
  of the repository. Section 4.1 of the specification gives its contract: a call of a
  wrapped function does not run the function; it returns a new deferred value that
  records the function and the arguments, and the dependencies of that value are the
  deferred values found among the arguments, also inside ordinary containers. Section 9
  asks for a builder that records nodes as wrapped calls are made. The fresh key stands
  for the unique name the library gives every call.
\<close>

definition delayed_call :: "func \<Rightarrow> arg list \<Rightarrow> session \<Rightarrow> key \<times> session" where
  "delayed_call f xs s =
     (length (tasks s), s\<lparr>tasks := tasks s @ [\<lparr>fn = f, args = xs\<rparr>]\<rparr>)"

section \<open>The graph builder of the notebook\<close>

text \<open>
  \<^verbatim>\<open>random.choice(seq)\<close> raises \<^verbatim>\<open>IndexError\<close> on an empty sequence and
  otherwise returns \<^verbatim>\<open>seq[i]\<close> for a generated index \<open>i\<close> below the length. The
  generator is the function \<open>rnd\<close>: its \<open>p\<close>-th raw draw is \<open>rnd p\<close>.
\<close>

definition random_choice :: "(nat \<Rightarrow> nat) \<Rightarrow> 'a list \<Rightarrow> session \<Rightarrow> pyerr + ('a \<times> session)" where
  "random_choice rnd seq s =
     (if seq = [] then Inl IndexError
      else Inr (seq ! (rnd (rng_pos s) mod length seq), s\<lparr>rng_pos := Suc (rng_pos s)\<rparr>))"

text \<open>\<^verbatim>\<open>seq[i]\<close> for a non-negative index.\<close>

definition getitem :: "'a list \<Rightarrow> nat \<Rightarrow> pyerr + 'a" where
  "getitem seq i = (if i < length seq then Inr (seq ! i) else Inl IndexError)"

text \<open>\<^verbatim>\<open>range(n)\<close>: empty when \<open>n\<close> is negative.\<close>

definition py_range :: "int \<Rightarrow> nat list" where
  "py_range n = [0 ..< nat n]"

text \<open>\<^verbatim>\<open>'mydata-%d.dat' % i\<close>\<close>

fun decimal :: "nat \<Rightarrow> string" where
  "decimal n = (if n < 10 then [''0123456789'' ! n]
                else decimal (n div 10) @ [''0123456789'' ! (n mod 10)])"

definition filenames :: "nat \<Rightarrow> string list" where
  "filenames n = map (\<lambda>i. ''mydata-'' @ decimal i @ ''.dat'') (py_range (int n))"

text \<open>\<^verbatim>\<open>data = [load(fn) for fn in filenames]\<close>\<close>

fun load_all :: "string list \<Rightarrow> session \<Rightarrow> key list \<times> session" where
  "load_all [] s = ([], s)"
| "load_all (f # fs) s =
     (let (d, s1) = delayed_call Load [Concrete (PStr f)] s;
          (ds, s2) = load_all fs s1
      in (d # ds, s2))"

text \<open>\<^verbatim>\<open>processed = [process(d, reference) for d in data]\<close>\<close>

fun process_all :: "key list \<Rightarrow> key \<Rightarrow> session \<Rightarrow> key list \<times> session" where
  "process_all [] reference s = ([], s)"
| "process_all (d # ds) reference s =
     (let (p, s1) = delayed_call Process [Deferred d, Deferred reference] s;
          (ps, s2) = process_all ds reference s1
      in (p # ps, s2))"

text \<open>
  The sliding window:
  \<^verbatim>\<open>
  rolled = []
  for i in range(len(processed) - 2):
      a = processed[i]
      b = processed[i + 1]
      c = processed[i + 2]
      r = roll(a, b, c)
      rolled.append(r)
  \<close>
  The function runs the loop body for the remaining indices.
\<close>

fun roll_loop :: "key list \<Rightarrow> nat list \<Rightarrow> key list \<Rightarrow> session \<Rightarrow> pyerr + (key list \<times> session)" where
  "roll_loop processed [] rolled s = Inr (rolled, s)"
| "roll_loop processed (i # is) rolled s =
     (case getitem processed i of Inl e \<Rightarrow> Inl e | Inr a \<Rightarrow>
      case getitem processed (i + 1) of Inl e \<Rightarrow> Inl e | Inr b \<Rightarrow>
      case getitem processed (i + 2) of Inl e \<Rightarrow> Inl e | Inr c \<Rightarrow>
      (let (r, s1) = delayed_call Roll [Deferred a, Deferred b, Deferred c] s
       in roll_loop processed is (rolled @ [r]) s1))"

text \<open>
  The random pairs:
  \<^verbatim>\<open>
  compared = []
  for i in range(20):
      a = random.choice(rolled)
      b = random.choice(rolled)
      c = compare(a, b)
      compared.append(c)
  \<close>
\<close>

fun compare_loop :: "(nat \<Rightarrow> nat) \<Rightarrow> key list \<Rightarrow> nat list \<Rightarrow> key list \<Rightarrow> session \<Rightarrow> pyerr + (key list \<times> session)" where
  "compare_loop rnd rolled [] compared s = Inr (compared, s)"
| "compare_loop rnd rolled (i # is) compared s =
     (case random_choice rnd rolled s of Inl e \<Rightarrow> Inl e | Inr (a, s1) \<Rightarrow>
      case random_choice rnd rolled s1 of Inl e \<Rightarrow> Inl e | Inr (b, s2) \<Rightarrow>
      (let (c, s3) = delayed_call Compare [Deferred a, Deferred b] s2
       in compare_loop rnd rolled is (compared @ [c]) s3))"

text \<open>
  The variables of the notebook after the graph is built, and the session they live
  in.
\<close>

record namespace =
  data :: "key list"
  reference :: key
  processed :: "key list"
  rolled :: "key list"
  compared :: "key list"
  best :: key
  sess :: session

definition graph :: "namespace \<Rightarrow> node list" where
  "graph ns = tasks (sess ns)"

text \<open>
  Cells 5 and 12 are the same code with different sizes: the file names, the SQL
  address and the number of sampled pairs are the parameters.
\<close>

definition etl :: "string list \<Rightarrow> string \<Rightarrow> int \<Rightarrow> (nat \<Rightarrow> nat) \<Rightarrow> session \<Rightarrow> pyerr + namespace" where
  "etl fns address n_pairs rnd s0 =
     (let (dat, s1) = load_all fns s0;
          (ref, s2) = delayed_call Load_from_sql [Concrete (PStr address)] s1;
          (pro, s3) = process_all dat ref s2
      in (case roll_loop pro (py_range (int (length pro) - 2)) [] s3 of
            Inl e \<Rightarrow> Inl e
          | Inr (rol, s4) \<Rightarrow>
             (case compare_loop rnd rol (py_range n_pairs) [] s4 of
                Inl e \<Rightarrow> Inl e
              | Inr (com, s5) \<Rightarrow>
                 (let (bes, s6) = delayed_call Reduction [Container (map Deferred com)] s5
                  in Inr \<lparr>data = dat, reference = ref, processed = pro, rolled = rol,
                           compared = com, best = bes, sess = s6\<rparr>))))"

definition cell5 :: "(nat \<Rightarrow> nat) \<Rightarrow> pyerr + namespace" where
  "cell5 rnd = etl (filenames 10) ''sql://mytable'' 20 rnd new_session"

definition cell12 :: "(nat \<Rightarrow> nat) \<Rightarrow> session \<Rightarrow> pyerr + namespace" where
  "cell12 rnd s = etl (filenames 100) ''sql://mytable'' 200 rnd s"

text \<open>
  The whole notebook: cell 12 runs in the session cell 5 leaves behind, with the same
  random generator.
\<close>

definition notebook :: "(nat \<Rightarrow> nat) \<Rightarrow> pyerr + (namespace \<times> namespace)" where
  "notebook rnd =
     (case cell5 rnd of
        Inl e \<Rightarrow> Inl e
      | Inr ns5 \<Rightarrow>
         (case cell12 rnd (sess ns5) of
            Inl e \<Rightarrow> Inl e
          | Inr ns12 \<Rightarrow> Inr (ns5, ns12)))"

section \<open>The dependency relation\<close>

text \<open>
  The dependencies of a node are the deferred values among its arguments; an edge runs
  from a node to each of them.
\<close>

definition deps :: "node list \<Rightarrow> key \<Rightarrow> key set" where
  "deps g k = set (node_deps (g ! k))"

definition dep_rel :: "node list \<Rightarrow> (key \<times> key) set" where
  "dep_rel g = {(k, d). k < length g \<and> d \<in> deps g k}"

text \<open>
  A session is well formed when every node only refers to nodes created before it. A
  Python call can only be given deferred values that already exist.
\<close>

definition well_formed :: "node list \<Rightarrow> bool" where
  "well_formed g = (\<forall>k<length g. \<forall>d\<in>deps g k. d < k)"

text \<open>
  The graph of a deferred value \<open>t\<close>: the nodes reachable from \<open>t\<close> along
  dependency edges. The scan visits the keys from \<open>t\<close> downwards and adds the
  dependencies of every key it has collected; a key that is not a node of the session has
  no dependencies.
\<close>

primrec scan :: "node list \<Rightarrow> nat \<Rightarrow> key set \<Rightarrow> key set" where
  "scan g 0 acc = acc"
| "scan g (Suc i) acc = scan g i (if i \<in> acc \<and> i < length g then acc \<union> deps g i else acc)"

definition graph_of :: "node list \<Rightarrow> key \<Rightarrow> key set" where
  "graph_of g t = scan g (Suc t) {t}"

section \<open>Graph execution\<close>

text \<open>
  Modelled from the spec: the scheduler reached through \<^verbatim>\<open>client.compute\<close> is
  the library's and runs on a remote cluster; the repository holds no code of it.
  Section 4.2 of the specification gives the contract: the graph of the terminal value
  is submitted; a node executes only after all of its dependency nodes have produced
  results; each node executes at most once per submission; nodes with no dependency
  between them may run in any order. Sections 4.2 and 7: a task that fails marks its
  own deferred value failed, the failure passes on to every dependent, and a failed
  future gives the originating task's error.

  The state of one submission gives every key of the session a status: a node outside
  the submitted graph is \<open>Absent\<close>; a failed node records the node whose task raised
  and what it raised. An execution is a sequence of events: a node starts, a running
  node finishes (its task function is called with the results of its arguments), or a
  pending node is marked failed because of a failed dependency.
\<close>

datatype status = Absent | Pending | Running | Finished pyval | Erred key pyerr

datatype event = Start key | Finish key | Blame key key

definition submit :: "node list \<Rightarrow> key \<Rightarrow> status list" where
  "submit g t = map (\<lambda>k. if k \<in> graph_of g t then Pending else Absent) [0 ..< length g]"

definition finished :: "status list \<Rightarrow> key \<Rightarrow> bool" where
  "finished st k = (k < length st \<and> (case st ! k of Finished v \<Rightarrow> True | _ \<Rightarrow> False))"

definition ready :: "node list \<Rightarrow> status list \<Rightarrow> key \<Rightarrow> bool" where
  "ready g st k = list_all (finished st) (node_deps (g ! k))"

fun resolve :: "status list \<Rightarrow> arg \<Rightarrow> pyval" where
  "resolve st (Concrete v) = v"
| "resolve st (Deferred k) =
     (if k < length st then (case st ! k of Finished v \<Rightarrow> v | _ \<Rightarrow> PNone) else PNone)"
| "resolve st (Container xs) = PList (map (resolve st) xs)"

definition outcome :: "(func \<Rightarrow> pyval list \<Rightarrow> pyerr + pyval) \<Rightarrow> node list \<Rightarrow> status list \<Rightarrow> key \<Rightarrow> status" where
  "outcome body g st k =
     (case body (fn (g ! k)) (map (resolve st) (args (g ! k))) of
        Inr v \<Rightarrow> Finished v
      | Inl e \<Rightarrow> Erred k e)"

fun fire :: "(func \<Rightarrow> pyval list \<Rightarrow> pyerr + pyval) \<Rightarrow> node list \<Rightarrow> status list \<Rightarrow> event \<Rightarrow> status list option" where
  "fire body g st (Start k) =
     (if k < length g \<and> k < length st \<and> st ! k = Pending \<and> ready g st k
      then Some (st[k := Running]) else None)"
| "fire body g st (Finish k) =
     (if k < length g \<and> k < length st \<and> st ! k = Running
      then Some (st[k := outcome body g st k]) else None)"
| "fire body g st (Blame k d) =
     (if k < length g \<and> k < length st \<and> st ! k = Pending \<and> d \<in> deps g k \<and> d < length st
      then (case st ! d of Erred origin e \<Rightarrow> Some (st[k := Erred origin e]) | _ \<Rightarrow> None)
      else None)"

fun run :: "(func \<Rightarrow> pyval list \<Rightarrow> pyerr + pyval) \<Rightarrow> node list \<Rightarrow> status list \<Rightarrow> event list \<Rightarrow> status list option" where
  "run body g st [] = Some st"
| "run body g st (e # es) =
     (case fire body g st e of None \<Rightarrow> None | Some st' \<Rightarrow> run body g st' es)"

text \<open>
  A submission is settled when no node is waiting or running. Awaiting a future gives
  the value of a finished node and the recorded error of a failed one; before that
  there is nothing to give.
\<close>

definition settled :: "status list \<Rightarrow> bool" where
  "settled st = list_all (\<lambda>s. s \<noteq> Pending \<and> s \<noteq> Running) st"

definition await :: "status list \<Rightarrow> key \<Rightarrow> (pyerr + pyval) option" where
  "await st k =
     (if k < length st
      then (case st ! k of Finished v \<Rightarrow> Some (Inr v) | Erred origin e \<Rightarrow> Some (Inl e)
            | _ \<Rightarrow> None)
      else None)"

section \<open>The nodes the builder creates\<close>

definition load_node :: "string \<Rightarrow> node" where
  "load_node f = \<lparr>fn = Load, args = [Concrete (PStr f)]\<rparr>"

definition sql_node :: "string \<Rightarrow> node" where
  "sql_node address = \<lparr>fn = Load_from_sql, args = [Concrete (PStr address)]\<rparr>"

definition process_node :: "key \<Rightarrow> key \<Rightarrow> node" where
  "process_node r d = \<lparr>fn = Process, args = [Deferred d, Deferred r]\<rparr>"

definition roll_node :: "key list \<Rightarrow> nat \<Rightarrow> node" where
  "roll_node pro i =
     \<lparr>fn = Roll, args = [Deferred (pro ! i), Deferred (pro ! (i + 1)), Deferred (pro ! (i + 2))]\<rparr>"

definition compare_node :: "(nat \<Rightarrow> nat) \<Rightarrow> key list \<Rightarrow> nat \<Rightarrow> nat \<Rightarrow> node" where
  "compare_node rnd rol p j =
     \<lparr>fn = Compare, args = [Deferred (rol ! (rnd (p + 2 * j) mod length rol)),
                            Deferred (rol ! (rnd (p + 2 * j + 1) mod length rol))]\<rparr>"

definition reduction_node :: "key list \<Rightarrow> node" where
  "reduction_node com = \<lparr>fn = Reduction, args = [Container (map Deferred com)]\<rparr>"

text \<open>
  The result of the builder in closed form: the keys are consecutive, in creation
  order, after the nodes the session already holds.
\<close>

definition etl_closed :: "string list \<Rightarrow> string \<Rightarrow> int \<Rightarrow> (nat \<Rightarrow> nat) \<Rightarrow> session \<Rightarrow> namespace" where
  "etl_closed fns address n_pairs rnd s0 =
     (let n = length fns;
          ref = length (tasks s0) + n;
          dat = [length (tasks s0) ..< ref];
          pro = [Suc ref ..< Suc ref + n];
          rol = [Suc ref + n ..< Suc ref + n + (n - 2)];
          bes = Suc ref + n + (n - 2) + nat n_pairs;
          com = [Suc ref + n + (n - 2) ..< bes]
      in \<lparr>data = dat, reference = ref, processed = pro, rolled = rol, compared = com,
           best = bes,
           sess = s0\<lparr>tasks := tasks s0 @ map load_node fns @ [sql_node address]
                          @ map (process_node ref) dat @ map (roll_node pro) [0 ..< n - 2]
                          @ map (compare_node rnd rol (rng_pos s0)) [0 ..< nat n_pairs]
                          @ [reduction_node com],
                        rng_pos := rng_pos s0 + 2 * nat n_pairs\<rparr>\<rparr>)"

text \<open>
  A small run of the builder, written out: four files, two pairs, and the generator
  whose \<open>p\<close>-th draw is \<open>p\<close>.
\<close>

definition small_run :: namespace where
  "small_run =
     \<lparr>data = [0, 1, 2, 3], reference = 4, processed = [5, 6, 7, 8],
      rolled = [9, 10], compared = [11, 12], best = 13,
      sess =
        \<lparr>tasks =
           [\<lparr>fn = Load, args = [Concrete (PStr ''mydata-0.dat'')]\<rparr>,
            \<lparr>fn = Load, args = [Concrete (PStr ''mydata-1.dat'')]\<rparr>,
            \<lparr>fn = Load, args = [Concrete (PStr ''mydata-2.dat'')]\<rparr>,
            \<lparr>fn = Load, args = [Concrete (PStr ''mydata-3.dat'')]\<rparr>,
            \<lparr>fn = Load_from_sql, args = [Concrete (PStr ''sql://mytable'')]\<rparr>,
            \<lparr>fn = Process, args = [Deferred 0, Deferred 4]\<rparr>,
            \<lparr>fn = Process, args = [Deferred 1, Deferred 4]\<rparr>,
            \<lparr>fn = Process, args = [Deferred 2, Deferred 4]\<rparr>,
            \<lparr>fn = Process, args = [Deferred 3, Deferred 4]\<rparr>,
            \<lparr>fn = Roll, args = [Deferred 5, Deferred 6, Deferred 7]\<rparr>,
            \<lparr>fn = Roll, args = [Deferred 6, Deferred 7, Deferred 8]\<rparr>,
            \<lparr>fn = Compare, args = [Deferred 9, Deferred 10]\<rparr>,
            \<lparr>fn = Compare, args = [Deferred 9, Deferred 10]\<rparr>,
            \<lparr>fn = Reduction, args = [Container [Deferred 11, Deferred 12]]\<rparr>],
         rng_pos = 4\<rparr>\<rparr>"


section \<open>Invariants of an execution\<close>

text \<open>
  The status of a node only moves forward: an absent node stays absent, a pending node
  may start or be marked failed, a running node finishes or fails, and a finished or
  failed node keeps its status.
\<close>

fun advances :: "status \<Rightarrow> status \<Rightarrow> bool" where
  "advances Absent s' = (s' = Absent)"
| "advances Pending s' = (s' \<noteq> Absent)"
| "advances Running s' = (s' \<noteq> Absent \<and> s' \<noteq> Pending)"
| "advances (Finished v) s' = (s' = Finished v)"
| "advances (Erred origin e) s' = (s' = Erred origin e)"

text \<open>
  A node has started when it is running or has finished. A state is sound when every
  started node has all its dependencies finished.
\<close>

definition started :: "status list \<Rightarrow> key \<Rightarrow> bool" where
  "started st k = (k < length st \<and> (st ! k = Running \<or> finished st k))"

definition sound :: "node list \<Rightarrow> status list \<Rightarrow> bool" where
  "sound g st = (\<forall>k<length g. started st k \<longrightarrow> (\<forall>d\<in>deps g k. finished st d))"

text \<open>
  The number of parameters of each task function (cell 3), and sessions in which every
  node was called with that many arguments. In a clean state nothing has failed and
  every result is \<^verbatim>\<open>None\<close>.
\<close>

fun arity :: "func \<Rightarrow> nat" where
  "arity Load = 1"
| "arity Load_from_sql = 1"
| "arity Process = 2"
| "arity Roll = 3"
| "arity Compare = 2"
| "arity Reduction = 1"

definition well_called :: "node list \<Rightarrow> bool" where
  "well_called g = (\<forall>n\<in>set g. length (args n) = arity (fn n))"

definition clean :: "status list \<Rightarrow> bool" where
  "clean st = (\<forall>s\<in>set st. case s of Finished v \<Rightarrow> v = PNone | Erred origin e \<Rightarrow> False | _ \<Rightarrow> True)"

text \<open>
  An execution of the small run: the nodes one after the other, in creation order, and
  the state it ends in.
\<close>

definition small_schedule :: "event list" where
  "small_schedule =
     [Start 0, Finish 0, Start 1, Finish 1, Start 2, Finish 2, Start 3, Finish 3,
      Start 4, Finish 4, Start 5, Finish 5, Start 6, Finish 6, Start 7, Finish 7,
      Start 8, Finish 8, Start 9, Finish 9, Start 10, Finish 10, Start 11, Finish 11,
      Start 12, Finish 12, Start 13, Finish 13]"

definition small_final :: "status list" where
  "small_final =
     [Finished PNone, Finished PNone, Finished PNone, Finished PNone, Finished PNone,
      Finished PNone, Finished PNone, Finished PNone, Finished PNone, Finished PNone,
      Finished PNone, Finished PNone, Finished PNone, Finished PNone]"



section \<open>The builder in closed form\<close>

lemma load_all_eq:
  "load_all fns s =
     ([length (tasks s) ..< length (tasks s) + length fns],
      s\<lparr>tasks := tasks s @ map load_node fns\<rparr>)"
proof (induction fns arbitrary: s)
  case Nil
  show ?case by simp
next
  case (Cons f fs)
  show ?case
    by (simp add: Cons.IH delayed_call_def load_node_def upt_conv_Cons del: upt_Suc)
qed

lemma process_all_eq:
  "process_all ds r s =
     ([length (tasks s) ..< length (tasks s) + length ds],
      s\<lparr>tasks := tasks s @ map (process_node r) ds\<rparr>)"
proof (induction ds arbitrary: s)
  case Nil
  show ?case by simp
next
  case (Cons d ds)
  show ?case
    by (simp add: Cons.IH delayed_call_def process_node_def upt_conv_Cons del: upt_Suc)
qed

lemma roll_loop_eq:
  "\<forall>i\<in>set is. i + 2 < length pro \<Longrightarrow>
   roll_loop pro is acc s =
     Inr (acc @ [length (tasks s) ..< length (tasks s) + length is],
          s\<lparr>tasks := tasks s @ map (roll_node pro) is\<rparr>)"
proof (induction "is" arbitrary: acc s)
  case Nil
  show ?case by simp
next
  case (Cons i js)
  then show ?case
    by (simp add: getitem_def delayed_call_def roll_node_def upt_conv_Cons del: upt_Suc)
qed

lemma compare_loop_eq:
  "rol \<noteq> [] \<Longrightarrow>
   compare_loop rnd rol is acc s =
     Inr (acc @ [length (tasks s) ..< length (tasks s) + length is],
          s\<lparr>tasks := tasks s @ map (compare_node rnd rol (rng_pos s)) [0 ..< length is],
            rng_pos := rng_pos s + 2 * length is\<rparr>)"
proof (induction "is" arbitrary: acc s)
  case Nil
  show ?case by simp
next
  case (Cons i js)
  have shift: "map (compare_node rnd rol (Suc (Suc (rng_pos s)))) [0 ..< length js]
             = map (compare_node rnd rol (rng_pos s)) (map Suc [0 ..< length js])"
    by (simp add: compare_node_def)
  have upt0: "[0 ..< Suc (length js)] = 0 # map Suc [0 ..< length js]"
    by (simp add: upt_conv_Cons map_Suc_upt del: upt_Suc)
  show ?case using Cons.prems
    by (simp add: Cons.IH random_choice_def delayed_call_def upt_conv_Cons shift upt0
             del: upt_Suc)
       (simp add: compare_node_def)
qed

lemma compare_loop_empty:
  "compare_loop rnd [] is acc s = (if is = [] then Inr (acc, s) else Inl IndexError)"
  by (cases "is") (simp_all add: random_choice_def)

lemma etl_eq:
  "etl fns address n_pairs rnd s0 =
     (if length fns \<le> 2 \<and> 0 < n_pairs then Inl IndexError
      else Inr (etl_closed fns address n_pairs rnd s0))"
proof (cases "length fns \<le> 2")
  case True
  then have "py_range (int (length fns) - 2) = []"
    by (simp add: py_range_def)
  then show ?thesis using True
    by (simp add: etl_def load_all_eq process_all_eq delayed_call_def compare_loop_empty
          etl_closed_def py_range_def sql_node_def reduction_node_def Let_def)
next
  case False
  then have n: "nat (int (length fns) - 2) = length fns - 2" by simp
  have inr: "\<forall>i\<in>set [0 ..< length fns - 2]. i + 2 < length [Suc (length (tasks s0) + length fns) ..< Suc (length (tasks s0) + length fns + length fns)]"
    using False by auto
  show ?thesis using False
    by (simp add: etl_def load_all_eq process_all_eq delayed_call_def py_range_def n
          roll_loop_eq[OF inr] compare_loop_eq etl_closed_def sql_node_def reduction_node_def Let_def
          del: upt_Suc)
       (simp add: add.assoc)
qed


lemma closed_fields:
  "data (etl_closed fns address n_pairs rnd s0) = [length (tasks s0) ..< length (tasks s0) + length fns]"
  "reference (etl_closed fns address n_pairs rnd s0) = length (tasks s0) + length fns"
  "processed (etl_closed fns address n_pairs rnd s0)
     = [Suc (length (tasks s0) + length fns) ..< Suc (length (tasks s0) + length fns) + length fns]"
  "rolled (etl_closed fns address n_pairs rnd s0)
     = [Suc (length (tasks s0) + length fns) + length fns ..<
        Suc (length (tasks s0) + length fns) + length fns + (length fns - 2)]"
  "compared (etl_closed fns address n_pairs rnd s0)
     = [Suc (length (tasks s0) + length fns) + length fns + (length fns - 2) ..<
        Suc (length (tasks s0) + length fns) + length fns + (length fns - 2) + nat n_pairs]"
  "best (etl_closed fns address n_pairs rnd s0)
     = Suc (length (tasks s0) + length fns) + length fns + (length fns - 2) + nat n_pairs"
  "length (graph (etl_closed fns address n_pairs rnd s0))
     = Suc (Suc (length (tasks s0) + length fns) + length fns + (length fns - 2) + nat n_pairs)"
  by (simp_all add: etl_closed_def graph_def Let_def)

lemma closed_old:
  "k < length (tasks s0) \<Longrightarrow> graph (etl_closed fns address n_pairs rnd s0) ! k = tasks s0 ! k"
  by (simp add: etl_closed_def graph_def Let_def nth_append)

lemma closed_load:
  "i < length fns \<Longrightarrow>
   graph (etl_closed fns address n_pairs rnd s0) ! (length (tasks s0) + i) = load_node (fns ! i)"
  by (simp add: etl_closed_def graph_def Let_def nth_append)

lemma closed_sql:
  "graph (etl_closed fns address n_pairs rnd s0) ! (length (tasks s0) + length fns) = sql_node address"
  by (simp add: etl_closed_def graph_def Let_def nth_append)

lemma closed_process:
  "i < length fns \<Longrightarrow>
   graph (etl_closed fns address n_pairs rnd s0) ! (Suc (length (tasks s0) + length fns) + i)
     = process_node (length (tasks s0) + length fns) (length (tasks s0) + i)"
  by (simp add: etl_closed_def graph_def Let_def nth_append)

lemma closed_roll:
  "i < length fns - 2 \<Longrightarrow>
   graph (etl_closed fns address n_pairs rnd s0) ! (Suc (length (tasks s0) + length fns) + length fns + i)
     = roll_node (processed (etl_closed fns address n_pairs rnd s0)) i"
  by (simp add: etl_closed_def graph_def Let_def nth_append)

lemma closed_compare:
  "j < nat n_pairs \<Longrightarrow>
   graph (etl_closed fns address n_pairs rnd s0)
     ! (Suc (length (tasks s0) + length fns) + length fns + (length fns - 2) + j)
     = compare_node rnd (rolled (etl_closed fns address n_pairs rnd s0)) (rng_pos s0) j"
  by (simp add: etl_closed_def graph_def Let_def nth_append)

lemma closed_best:
  "graph (etl_closed fns address n_pairs rnd s0)
     ! (Suc (length (tasks s0) + length fns) + length fns + (length fns - 2) + nat n_pairs)
     = reduction_node (compared (etl_closed fns address n_pairs rnd s0))"
  by (simp add: etl_closed_def graph_def Let_def nth_append)

section \<open>Well-formed graphs are acyclic\<close>

lemma concat_arg_keys_Deferred: "concat (map (arg_keys \<circ> Deferred) ks) = ks"
  by (induction ks) simp_all

lemma closed_length:
  "length (data (etl_closed fns address n_pairs rnd s0)) = length fns"
  "length (processed (etl_closed fns address n_pairs rnd s0)) = length fns"
  "length (rolled (etl_closed fns address n_pairs rnd s0)) = length fns - 2"
  "length (compared (etl_closed fns address n_pairs rnd s0)) = nat n_pairs"
  by (simp_all add: etl_closed_def Let_def del: upt_Suc)

lemma closed_nth:
  "i < length fns \<Longrightarrow> data (etl_closed fns address n_pairs rnd s0) ! i = length (tasks s0) + i"
  "i < length fns \<Longrightarrow>
     processed (etl_closed fns address n_pairs rnd s0) ! i = Suc (length (tasks s0) + length fns) + i"
  "i < length fns - 2 \<Longrightarrow>
     rolled (etl_closed fns address n_pairs rnd s0) ! i
       = Suc (length (tasks s0) + length fns) + length fns + i"
  "i < nat n_pairs \<Longrightarrow>
     compared (etl_closed fns address n_pairs rnd s0) ! i
       = Suc (length (tasks s0) + length fns) + length fns + (length fns - 2) + i"
  by (simp_all add: etl_closed_def Let_def del: upt_Suc)

lemma closed_set_compared:
  "set (compared (etl_closed fns address n_pairs rnd s0))
     = {Suc (length (tasks s0) + length fns) + length fns + (length fns - 2) ..<
        Suc (length (tasks s0) + length fns) + length fns + (length fns - 2) + nat n_pairs}"
  by (simp add: etl_closed_def Let_def del: upt_Suc)

lemma node_deps_simps:
  "node_deps (load_node f) = []"
  "node_deps (sql_node a) = []"
  "node_deps (process_node r d) = [d, r]"
  "node_deps (roll_node pro i) = [pro ! i, pro ! (i + 1), pro ! (i + 2)]"
  "node_deps (compare_node rnd rol p j)
     = [rol ! (rnd (p + 2 * j) mod length rol), rol ! (rnd (p + 2 * j + 1) mod length rol)]"
  "node_deps (reduction_node com) = com"
  by (simp_all add: node_deps_def load_node_def sql_node_def process_node_def roll_node_def
        compare_node_def reduction_node_def concat_arg_keys_Deferred)

lemma key_cases:
  assumes "k < Suc (Suc (l + n) + n + w + m)"
  obtains (old) "k < l"
    | (load) i where "i < n" "k = l + i"
    | (sql) "k = l + n"
    | (proc) i where "i < n" "k = Suc (l + n) + i"
    | (roll) i where "i < w" "k = Suc (l + n) + n + i"
    | (cmp) j where "j < m" "k = Suc (l + n) + n + w + j"
    | (best) "k = Suc (l + n) + n + w + m"
proof -
  have c1: "l \<le> k \<Longrightarrow> k < l + n \<Longrightarrow> thesis"
    using load[of "k - l"] by simp
  have c2: "Suc (l + n) \<le> k \<Longrightarrow> k < Suc (l + n) + n \<Longrightarrow> thesis"
    using proc[of "k - Suc (l + n)"] by simp
  have c3: "Suc (l + n) + n \<le> k \<Longrightarrow> k < Suc (l + n) + n + w \<Longrightarrow> thesis"
    using roll[of "k - (Suc (l + n) + n)"] by simp
  have c4: "Suc (l + n) + n + w \<le> k \<Longrightarrow> k < Suc (l + n) + n + w + m \<Longrightarrow> thesis"
    using cmp[of "k - (Suc (l + n) + n + w)"] by simp
  have "k < l \<or> (l \<le> k \<and> k < l + n) \<or> k = l + n
        \<or> (Suc (l + n) \<le> k \<and> k < Suc (l + n) + n)
        \<or> (Suc (l + n) + n \<le> k \<and> k < Suc (l + n) + n + w)
        \<or> (Suc (l + n) + n + w \<le> k \<and> k < Suc (l + n) + n + w + m)
        \<or> k = Suc (l + n) + n + w + m"
    using assms by linarith
  then show thesis
    using old c1 sql c2 c3 c4 best by blast
qed

lemma well_formed_acyclic:
  assumes "well_formed g"
  shows "acyclic (dep_rel g)"
proof -
  have "dep_rel g \<subseteq> less_than\<inverse>"
    using assms by (auto simp: dep_rel_def well_formed_def)
  moreover have "acyclic (less_than\<inverse>)"
    by (simp add: wf_acyclic)
  ultimately show ?thesis
    by (rule acyclic_subset[rotated])
qed

lemma delayed_call_well_formed:
  assumes "well_formed (tasks s)"
    and "\<forall>d\<in>set (concat (map arg_keys xs)). d < length (tasks s)"
  shows "well_formed (tasks (snd (delayed_call f xs s)))"
  using assms
  by (auto simp: well_formed_def delayed_call_def deps_def node_deps_def nth_append
        less_Suc_eq)

lemma etl_closed_well_formed:
  assumes wf: "well_formed (tasks s0)"
    and ok: "\<not> (length fns \<le> 2 \<and> 0 < n_pairs)"
  shows "well_formed (graph (etl_closed fns address n_pairs rnd s0))"
  unfolding well_formed_def
proof (intro allI impI ballI)
  fix k d
  let ?ns = "etl_closed fns address n_pairs rnd s0"
  let ?l = "length (tasks s0)" and ?n = "length fns"
  assume k: "k < length (graph ?ns)" and d: "d \<in> deps (graph ?ns) k"
  from k have "k < Suc (Suc (?l + ?n) + ?n + (?n - 2) + nat n_pairs)"
    by (simp add: closed_fields)
  then show "d < k"
  proof (cases rule: key_cases)
    case old
    then show ?thesis using d wf
      by (simp add: deps_def closed_old well_formed_def)
  next
    case (load i)
    then show ?thesis using d
      by (simp add: deps_def closed_load node_deps_simps)
  next
    case sql
    then show ?thesis using d
      by (simp add: deps_def closed_sql node_deps_simps)
  next
    case (proc i)
    then show ?thesis using d closed_process[of i fns address n_pairs rnd s0]
      by (auto simp: deps_def node_deps_simps)
  next
    case (roll i)
    have "d \<in> {processed ?ns ! i, processed ?ns ! (i + 1), processed ?ns ! (i + 2)}"
      using d roll closed_roll[of i fns address n_pairs rnd s0]
      by (simp add: deps_def node_deps_simps)
    moreover have "i < ?n" "i + 1 < ?n" "i + 2 < ?n"
      using roll(1) by simp_all
    ultimately show ?thesis using roll(2)
      by (auto simp: closed_nth)
  next
    case (cmp j)
    let ?rol = "rolled ?ns"
    have n: "0 < ?n - 2" using ok cmp(1) by auto
    have lt: "rnd x mod length ?rol < ?n - 2" for x
      using n by (simp add: closed_length)
    have "d \<in> {?rol ! (rnd (rng_pos s0 + 2 * j) mod length ?rol),
               ?rol ! (rnd (rng_pos s0 + 2 * j + 1) mod length ?rol)}"
      using d cmp closed_compare[of j n_pairs fns address rnd s0]
      by (simp add: deps_def node_deps_simps)
    then obtain x where "d = ?rol ! (rnd x mod length ?rol)"
      by blast
    then have "d = Suc (?l + ?n) + ?n + rnd x mod length ?rol"
      using closed_nth(3)[OF lt] by simp
    then show ?thesis using cmp(2) lt[of x]
      by simp
  next
    case best
    have "d \<in> set (compared ?ns)"
      using d best closed_best[of fns address n_pairs rnd s0]
      by (simp add: deps_def node_deps_simps)
    then show ?thesis using best
      by (simp add: closed_set_compared)
  qed
qed


lemma small_run_eq:
  "etl (filenames 4) ''sql://mytable'' 2 (\<lambda>p. p) new_session = Inr small_run"
  by (simp add: etl_def filenames_def py_range_def new_session_def delayed_call_def
     getitem_def random_choice_def upt_rec small_run_def mod_Suc)

lemma new_session_well_formed: "well_formed (tasks new_session)"
  by (simp add: well_formed_def new_session_def)

section \<open>The kinds of the nodes\<close>

lemma length_filenames: "length (filenames n) = n"
  by (simp add: filenames_def py_range_def)

lemma closed_set:
  "set (data (etl_closed fns address n_pairs rnd s0))
     = {length (tasks s0) ..< length (tasks s0) + length fns}"
  "set (processed (etl_closed fns address n_pairs rnd s0))
     = {Suc (length (tasks s0) + length fns) ..< Suc (length (tasks s0) + length fns) + length fns}"
  "set (rolled (etl_closed fns address n_pairs rnd s0))
     = {Suc (length (tasks s0) + length fns) + length fns ..<
        Suc (length (tasks s0) + length fns) + length fns + (length fns - 2)}"
  by (simp_all add: etl_closed_def Let_def del: upt_Suc)

lemma closed_distinct:
  "distinct (data (etl_closed fns address n_pairs rnd s0))"
  "distinct (processed (etl_closed fns address n_pairs rnd s0))"
  "distinct (rolled (etl_closed fns address n_pairs rnd s0))"
  "distinct (compared (etl_closed fns address n_pairs rnd s0))"
  by (simp_all add: etl_closed_def Let_def del: upt_Suc)

lemma fn_simps:
  "fn (load_node f) = Load"
  "fn (sql_node a) = Load_from_sql"
  "fn (process_node r d) = Process"
  "fn (roll_node pro i) = Roll"
  "fn (compare_node rnd rol p j) = Compare"
  "fn (reduction_node com) = Reduction"
  by (simp_all add: load_node_def sql_node_def process_node_def roll_node_def
        compare_node_def reduction_node_def)

text \<open>The kind of every node the builder adds, by the list that holds its key.\<close>

lemma closed_fn:
  assumes k: "k < length (graph (etl_closed fns address n_pairs rnd s0))"
    and new: "length (tasks s0) \<le> k"
  shows "fn (graph (etl_closed fns address n_pairs rnd s0) ! k) =
     (if k \<in> set (data (etl_closed fns address n_pairs rnd s0)) then Load
      else if k = reference (etl_closed fns address n_pairs rnd s0) then Load_from_sql
      else if k \<in> set (processed (etl_closed fns address n_pairs rnd s0)) then Process
      else if k \<in> set (rolled (etl_closed fns address n_pairs rnd s0)) then Roll
      else if k \<in> set (compared (etl_closed fns address n_pairs rnd s0)) then Compare
      else Reduction)"
proof -
  let ?l = "length (tasks s0)" and ?n = "length fns"
  from k have "k < Suc (Suc (?l + ?n) + ?n + (?n - 2) + nat n_pairs)"
    by (simp add: closed_fields)
  then show ?thesis
  proof (cases rule: key_cases)
    case old
    then show ?thesis using new by simp
  next
    case (load i)
    then show ?thesis
      by (simp add: closed_load fn_simps closed_set)
  next
    case sql
    then show ?thesis
      by (simp add: closed_sql fn_simps closed_set closed_fields(2))
  next
    case (proc i)
    then show ?thesis using closed_process[of i fns address n_pairs rnd s0]
      by (simp add: fn_simps closed_set closed_fields(2))
  next
    case (roll i)
    then show ?thesis using closed_roll[of i fns address n_pairs rnd s0]
      by (simp add: fn_simps closed_set closed_fields(2))
  next
    case (cmp j)
    then show ?thesis using closed_compare[of j n_pairs fns address rnd s0]
      by (simp add: fn_simps closed_set closed_set_compared closed_fields(2))
  next
    case best
    then show ?thesis using closed_best[of fns address n_pairs rnd s0]
      by (simp add: fn_simps closed_set closed_set_compared closed_fields(2))
  qed
qed

lemma cell5_eq: "cell5 rnd = Inr (etl_closed (filenames 10) ''sql://mytable'' 20 rnd new_session)"
  by (simp add: cell5_def etl_eq length_filenames)

lemma new_session_simps: "tasks new_session = []" "rng_pos new_session = 0"
  by (simp_all add: new_session_def)

lemma closed_at:
  "i < length fns \<Longrightarrow>
     graph (etl_closed fns address n_pairs rnd s0) ! (data (etl_closed fns address n_pairs rnd s0) ! i)
       = load_node (fns ! i)"
  "graph (etl_closed fns address n_pairs rnd s0) ! reference (etl_closed fns address n_pairs rnd s0)
       = sql_node address"
  "i < length fns \<Longrightarrow>
     graph (etl_closed fns address n_pairs rnd s0) ! (processed (etl_closed fns address n_pairs rnd s0) ! i)
       = process_node (reference (etl_closed fns address n_pairs rnd s0))
           (data (etl_closed fns address n_pairs rnd s0) ! i)"
  "i < length fns - 2 \<Longrightarrow>
     graph (etl_closed fns address n_pairs rnd s0) ! (rolled (etl_closed fns address n_pairs rnd s0) ! i)
       = roll_node (processed (etl_closed fns address n_pairs rnd s0)) i"
  "i < nat n_pairs \<Longrightarrow>
     graph (etl_closed fns address n_pairs rnd s0) ! (compared (etl_closed fns address n_pairs rnd s0) ! i)
       = compare_node rnd (rolled (etl_closed fns address n_pairs rnd s0)) (rng_pos s0) i"
  "graph (etl_closed fns address n_pairs rnd s0) ! best (etl_closed fns address n_pairs rnd s0)
       = reduction_node (compared (etl_closed fns address n_pairs rnd s0))"
proof -
  show "i < length fns \<Longrightarrow>
     graph (etl_closed fns address n_pairs rnd s0) ! (data (etl_closed fns address n_pairs rnd s0) ! i)
       = load_node (fns ! i)"
    by (simp add: closed_nth closed_load)
  show "graph (etl_closed fns address n_pairs rnd s0) ! reference (etl_closed fns address n_pairs rnd s0)
       = sql_node address"
    by (simp add: closed_fields(2) closed_sql)
  show "i < length fns \<Longrightarrow>
     graph (etl_closed fns address n_pairs rnd s0) ! (processed (etl_closed fns address n_pairs rnd s0) ! i)
       = process_node (reference (etl_closed fns address n_pairs rnd s0))
           (data (etl_closed fns address n_pairs rnd s0) ! i)"
    using closed_process[of i fns address n_pairs rnd s0]
    by (simp add: closed_nth closed_fields(2))
  show "i < length fns - 2 \<Longrightarrow>
     graph (etl_closed fns address n_pairs rnd s0) ! (rolled (etl_closed fns address n_pairs rnd s0) ! i)
       = roll_node (processed (etl_closed fns address n_pairs rnd s0)) i"
    using closed_roll[of i fns address n_pairs rnd s0]
    by (simp add: closed_nth)
  show "i < nat n_pairs \<Longrightarrow>
     graph (etl_closed fns address n_pairs rnd s0) ! (compared (etl_closed fns address n_pairs rnd s0) ! i)
       = compare_node rnd (rolled (etl_closed fns address n_pairs rnd s0)) (rng_pos s0) i"
    using closed_compare[of i n_pairs fns address rnd s0]
    by (simp add: closed_nth)
  show "graph (etl_closed fns address n_pairs rnd s0) ! best (etl_closed fns address n_pairs rnd s0)
       = reduction_node (compared (etl_closed fns address n_pairs rnd s0))"
    using closed_best[of fns address n_pairs rnd s0]
    by (simp add: closed_fields(6))
qed

text \<open>In a fresh session the nodes of one kind are exactly the keys of one list.\<close>

lemma closed_kind_sets:
  assumes "tasks s0 = []"
  shows "{k. k < length (graph (etl_closed fns address n_pairs rnd s0))
             \<and> fn (graph (etl_closed fns address n_pairs rnd s0) ! k) = Roll}
           = set (rolled (etl_closed fns address n_pairs rnd s0))"
    and "{k. k < length (graph (etl_closed fns address n_pairs rnd s0))
             \<and> fn (graph (etl_closed fns address n_pairs rnd s0) ! k) = Compare}
           = set (compared (etl_closed fns address n_pairs rnd s0))"
    and "{k. k < length (graph (etl_closed fns address n_pairs rnd s0))
             \<and> fn (graph (etl_closed fns address n_pairs rnd s0) ! k) = Reduction}
           = {best (etl_closed fns address n_pairs rnd s0)}"
    and "{k. k < length (graph (etl_closed fns address n_pairs rnd s0))
             \<and> fn (graph (etl_closed fns address n_pairs rnd s0) ! k) = Load_from_sql}
           = {reference (etl_closed fns address n_pairs rnd s0)}"
    and "{k. k < length (graph (etl_closed fns address n_pairs rnd s0))
             \<and> fn (graph (etl_closed fns address n_pairs rnd s0) ! k) = Process}
           = set (processed (etl_closed fns address n_pairs rnd s0))"
proof -
  let ?ns = "etl_closed fns address n_pairs rnd s0"
  have fn: "k < length (graph ?ns) \<Longrightarrow> fn (graph ?ns ! k) =
     (if k \<in> set (data ?ns) then Load
      else if k = reference ?ns then Load_from_sql
      else if k \<in> set (processed ?ns) then Process
      else if k \<in> set (rolled ?ns) then Roll
      else if k \<in> set (compared ?ns) then Compare
      else Reduction)" for k
    using closed_fn[of k fns address n_pairs rnd s0] assms by simp
  show "{k. k < length (graph ?ns) \<and> fn (graph ?ns ! k) = Roll} = set (rolled ?ns)"
    using assms by (auto simp: fn closed_set closed_set_compared closed_fields(2,7) split: if_splits)
  show "{k. k < length (graph ?ns) \<and> fn (graph ?ns ! k) = Compare} = set (compared ?ns)"
    using assms by (auto simp: fn closed_set closed_set_compared closed_fields(2,7) split: if_splits)
  show "{k. k < length (graph ?ns) \<and> fn (graph ?ns ! k) = Reduction} = {best ?ns}"
    using assms by (auto simp: fn closed_set closed_set_compared closed_fields(2,6,7) split: if_splits)
  show "{k. k < length (graph ?ns) \<and> fn (graph ?ns ! k) = Load_from_sql} = {reference ?ns}"
    using assms by (auto simp: fn closed_set closed_set_compared closed_fields(2,6,7) split: if_splits)
  show "{k. k < length (graph ?ns) \<and> fn (graph ?ns ! k) = Process} = set (processed ?ns)"
    using assms by (auto simp: fn closed_set closed_set_compared closed_fields(2,7) split: if_splits)
qed

section \<open>Acyclicity of the graphs the notebook builds\<close>

text \<open>
  Claim C1. Every graph that the builder of cells 5 and 12 produces, for any file names,
  SQL address, number of pairs and random choices, from any session whose nodes only
  refer to earlier nodes, is again such a session, and its dependency relation is
  acyclic: no node depends, directly or transitively, on its own result. The empty
  session of a fresh notebook is such a session (\<open>new_session_well_formed\<close>), and so is
  the session cell 5 leaves for cell 12 (\<open>notebook_runs\<close> below); any single wrapper
  call on existing deferred values keeps a session so (\<open>delayed_call_well_formed\<close>).
\<close>

theorem etl_graph_acyclic:
  assumes "well_formed (tasks s0)"
    and "etl fns address n_pairs rnd s0 = Inr ns"
  shows "well_formed (graph ns) \<and> acyclic (dep_rel (graph ns))
         \<and> (\<forall>k. (k, k) \<notin> (dep_rel (graph ns))\<^sup>+)"
proof -
  from assms(2) have ok: "\<not> (length fns \<le> 2 \<and> 0 < n_pairs)"
    and ns: "ns = etl_closed fns address n_pairs rnd s0"
    by (auto simp: etl_eq split: if_splits)
  have wf: "well_formed (graph ns)"
    unfolding ns by (rule etl_closed_well_formed[OF assms(1) ok])
  then have "acyclic (dep_rel (graph ns))"
    by (rule well_formed_acyclic)
  with wf show ?thesis
    by (simp add: acyclic_def)
qed

theorem etl_graph_acyclic_witness:
  "well_formed (tasks new_session)
   \<and> etl (filenames 4) ''sql://mytable'' 2 (\<lambda>p. p) new_session = Inr small_run
   \<and> well_formed (graph small_run) \<and> acyclic (dep_rel (graph small_run))
   \<and> (\<forall>k. (k, k) \<notin> (dep_rel (graph small_run))\<^sup>+)"
  using etl_graph_acyclic[OF new_session_well_formed small_run_eq]
    new_session_well_formed small_run_eq
  by simp

section \<open>The roll stage\<close>

text \<open>
  Claim C3. In the graph of cell 5, for every behaviour of the random generator, the
  sliding-window loop over the 10 processed items leaves exactly 8 roll nodes (the keys
  in \<open>rolled\<close> are distinct and are all the \<open>Roll\<close> nodes of the graph), and the
  \<open>i\<close>-th roll node was called with, and depends on exactly, the three consecutive
  processed nodes at positions \<open>i\<close>, \<open>i + 1\<close> and \<open>i + 2\<close>.
\<close>

theorem cell5_roll_stage:
  "\<exists>ns. cell5 rnd = Inr ns
     \<and> length (processed ns) = 10 \<and> distinct (processed ns)
     \<and> length (rolled ns) = 8 \<and> distinct (rolled ns)
     \<and> {k. k < length (graph ns) \<and> fn (graph ns ! k) = Roll} = set (rolled ns)
     \<and> (\<forall>i<8. graph ns ! (rolled ns ! i)
                 = \<lparr>fn = Roll, args = [Deferred (processed ns ! i),
                                        Deferred (processed ns ! (i + 1)),
                                        Deferred (processed ns ! (i + 2))]\<rparr>
              \<and> deps (graph ns) (rolled ns ! i)
                 = {processed ns ! i, processed ns ! (i + 1), processed ns ! (i + 2)}
              \<and> card (deps (graph ns) (rolled ns ! i)) = 3)"
proof -
  let ?ns = "etl_closed (filenames 10) ''sql://mytable'' 20 rnd new_session"
  have at: "graph ?ns ! (rolled ?ns ! i) = roll_node (processed ?ns) i" if "i < 8" for i
    using that closed_at(4)[of i "filenames 10" "''sql://mytable''" 20 rnd new_session]
    by (simp add: length_filenames)
  have pro: "processed ?ns ! i = 11 + i" if "i < 10" for i
    using that closed_nth(2)[of i "filenames 10" "''sql://mytable''" 20 rnd new_session]
    by (simp add: length_filenames new_session_simps)
  have "graph ?ns ! (rolled ?ns ! i)
          = \<lparr>fn = Roll, args = [Deferred (processed ?ns ! i), Deferred (processed ?ns ! (i + 1)),
                                 Deferred (processed ?ns ! (i + 2))]\<rparr>
        \<and> deps (graph ?ns) (rolled ?ns ! i)
          = {processed ?ns ! i, processed ?ns ! (i + 1), processed ?ns ! (i + 2)}
        \<and> card (deps (graph ?ns) (rolled ?ns ! i)) = 3" if i: "i < 8" for i
  proof -
    have p: "processed ?ns ! i = 11 + i" "processed ?ns ! (i + 1) = 12 + i"
      "processed ?ns ! (i + 2) = 13 + i"
      using i pro[of i] pro[of "i + 1"] pro[of "i + 2"] by simp_all
    have "card {11 + i, 12 + i, 13 + i} = 3"
      by simp
    then show ?thesis
      using p by (simp add: at[OF i] deps_def node_deps_simps) (simp add: roll_node_def)
  qed
  then have each: "\<forall>i<8. graph ?ns ! (rolled ?ns ! i)
          = \<lparr>fn = Roll, args = [Deferred (processed ?ns ! i), Deferred (processed ?ns ! (i + 1)),
                                 Deferred (processed ?ns ! (i + 2))]\<rparr>
        \<and> deps (graph ?ns) (rolled ?ns ! i)
          = {processed ?ns ! i, processed ?ns ! (i + 1), processed ?ns ! (i + 2)}
        \<and> card (deps (graph ?ns) (rolled ?ns ! i)) = 3"
    by blast
  have c: "cell5 rnd = Inr ?ns"
    by (rule cell5_eq)
  have l: "length (processed ?ns) = 10" "length (rolled ?ns) = 8"
    by (simp_all add: closed_length length_filenames)
  have d: "distinct (processed ?ns)" "distinct (rolled ?ns)"
    by (rule closed_distinct)+
  have s: "{k. k < length (graph ?ns) \<and> fn (graph ?ns ! k) = Roll} = set (rolled ?ns)"
    by (rule closed_kind_sets) (simp add: new_session_simps)
  from c l d s each show ?thesis
    by blast
qed


theorem cell5_roll_stage_witness:
  "\<exists>ns. cell5 (\<lambda>p. p) = Inr ns \<and> length (rolled ns) = 8
      \<and> rolled ns ! 0 = 21
      \<and> deps (graph ns) (rolled ns ! 0) = {11, 12, 13}
      \<and> card (deps (graph ns) (rolled ns ! 0)) = 3"
proof -
  from cell5_roll_stage[of "\<lambda>p. p"] obtain ns where
    c: "cell5 (\<lambda>p. p) = Inr ns" and l: "length (rolled ns) = 8"
    and each: "\<forall>i<8. graph ns ! (rolled ns ! i)
                 = \<lparr>fn = Roll, args = [Deferred (processed ns ! i),
                                        Deferred (processed ns ! (i + 1)),
                                        Deferred (processed ns ! (i + 2))]\<rparr>
              \<and> deps (graph ns) (rolled ns ! i)
                 = {processed ns ! i, processed ns ! (i + 1), processed ns ! (i + 2)}
              \<and> card (deps (graph ns) (rolled ns ! i)) = 3"
    by blast
  have "(0::nat) < 8" by simp
  with each have e0: "deps (graph ns) (rolled ns ! 0)
                 = {processed ns ! 0, processed ns ! (0 + 1), processed ns ! (0 + 2)}"
    and e1: "card (deps (graph ns) (rolled ns ! 0)) = 3"
    by blast+
  from c have ns: "ns = etl_closed (filenames 10) ''sql://mytable'' 20 (\<lambda>p. p) new_session"
    by (simp add: cell5_eq)
  have v: "processed ns ! 0 = 11" "processed ns ! (0 + 1) = 12" "processed ns ! (0 + 2) = 13"
    unfolding ns by (simp_all add: closed_nth length_filenames new_session_simps)
  have r: "rolled ns ! 0 = 21"
    unfolding ns by (simp add: closed_nth length_filenames new_session_simps)
  from e0 have "deps (graph ns) (rolled ns ! 0) = {11, 12, 13}"
    unfolding v .
  with c l r e1 show ?thesis
    by blast
qed


section \<open>The compare stage\<close>

text \<open>
  Claim C4. In the graph of cell 5, for every behaviour of the random generator, the
  sampling loop leaves exactly 20 compare nodes (the keys in \<open>compared\<close> are distinct
  and are all the \<open>Compare\<close> nodes of the graph). The \<open>j\<close>-th compare node was called
  with exactly two deferred arguments, both of them roll nodes: the ones the draws
  \<open>2 j\<close> and \<open>2 j + 1\<close> of the generator select. The two dependencies are counted
  with multiplicity: nothing keeps the two arguments apart (the dependency set then has
  one element instead of two), and nothing keeps two pairs apart. The last conjunct gives
  a generator under which the first two pairs both pick the first roll node twice.
\<close>

theorem cell5_compare_stage:
  "\<exists>ns. cell5 rnd = Inr ns
     \<and> length (rolled ns) = 8
     \<and> length (compared ns) = 20 \<and> distinct (compared ns)
     \<and> {k. k < length (graph ns) \<and> fn (graph ns ! k) = Compare} = set (compared ns)
     \<and> (\<forall>j<20. \<exists>a b. a = rolled ns ! (rnd (2 * j) mod 8)
              \<and> b = rolled ns ! (rnd (2 * j + 1) mod 8)
              \<and> a \<in> set (rolled ns) \<and> b \<in> set (rolled ns)
              \<and> graph ns ! (compared ns ! j) = \<lparr>fn = Compare, args = [Deferred a, Deferred b]\<rparr>
              \<and> node_deps (graph ns ! (compared ns ! j)) = [a, b]
              \<and> deps (graph ns) (compared ns ! j) = {a, b}
              \<and> card (deps (graph ns) (compared ns ! j)) = (if a = b then 1 else 2))
     \<and> (\<exists>rnd' ns'. cell5 rnd' = Inr ns'
              \<and> compared ns' ! 0 \<noteq> compared ns' ! 1
              \<and> args (graph ns' ! (compared ns' ! 0))
                    = [Deferred (rolled ns' ! 0), Deferred (rolled ns' ! 0)]
              \<and> args (graph ns' ! (compared ns' ! 1))
                    = [Deferred (rolled ns' ! 0), Deferred (rolled ns' ! 0)])"
proof -
  let ?ns = "\<lambda>r. etl_closed (filenames 10) ''sql://mytable'' 20 r new_session"
  have at: "graph (?ns r) ! (compared (?ns r) ! j)
              = \<lparr>fn = Compare, args = [Deferred (rolled (?ns r) ! (r (2 * j) mod 8)),
                                        Deferred (rolled (?ns r) ! (r (2 * j + 1) mod 8))]\<rparr>"
    if "j < 20" for j r
    using that closed_at(5)[of j 20 "filenames 10" "''sql://mytable''" r new_session]
    by (simp add: compare_node_def closed_length length_filenames new_session_simps)
  have lr: "length (rolled (?ns r)) = 8" for r
    by (simp add: closed_length length_filenames)
  have mem: "rolled (?ns r) ! (x mod 8) \<in> set (rolled (?ns r))" for x r
    by (rule nth_mem) (simp add: lr)
  have each: "\<forall>j<20. \<exists>a b. a = rolled (?ns rnd) ! (rnd (2 * j) mod 8)
              \<and> b = rolled (?ns rnd) ! (rnd (2 * j + 1) mod 8)
              \<and> a \<in> set (rolled (?ns rnd)) \<and> b \<in> set (rolled (?ns rnd))
              \<and> graph (?ns rnd) ! (compared (?ns rnd) ! j)
                   = \<lparr>fn = Compare, args = [Deferred a, Deferred b]\<rparr>
              \<and> node_deps (graph (?ns rnd) ! (compared (?ns rnd) ! j)) = [a, b]
              \<and> deps (graph (?ns rnd)) (compared (?ns rnd) ! j) = {a, b}
              \<and> card (deps (graph (?ns rnd)) (compared (?ns rnd) ! j)) = (if a = b then 1 else 2)"
    by (simp add: at mem deps_def node_deps_def)
  have c: "cell5 r = Inr (?ns r)" for r
    by (rule cell5_eq)
  have l: "length (compared (?ns rnd)) = 20"
    by (simp add: closed_length)
  have d: "distinct (compared (?ns rnd))"
    by (rule closed_distinct)
  have s: "{k. k < length (graph (?ns rnd)) \<and> fn (graph (?ns rnd) ! k) = Compare}
             = set (compared (?ns rnd))"
    by (rule closed_kind_sets) (simp add: new_session_simps)
  have "compared (?ns (\<lambda>p. 0)) ! 0 \<noteq> compared (?ns (\<lambda>p. 0)) ! 1"
    by (simp add: closed_nth)
  moreover have "args (graph (?ns (\<lambda>p. 0)) ! (compared (?ns (\<lambda>p. 0)) ! 0))
       = [Deferred (rolled (?ns (\<lambda>p. 0)) ! 0), Deferred (rolled (?ns (\<lambda>p. 0)) ! 0)]"
    by (simp add: at)
  moreover have "args (graph (?ns (\<lambda>p. 0)) ! (compared (?ns (\<lambda>p. 0)) ! 1))
       = [Deferred (rolled (?ns (\<lambda>p. 0)) ! 0), Deferred (rolled (?ns (\<lambda>p. 0)) ! 0)]"
    by (simp add: at)
  ultimately have poss: "\<exists>rnd' ns'. cell5 rnd' = Inr ns'
              \<and> compared ns' ! 0 \<noteq> compared ns' ! 1
              \<and> args (graph ns' ! (compared ns' ! 0))
                    = [Deferred (rolled ns' ! 0), Deferred (rolled ns' ! 0)]
              \<and> args (graph ns' ! (compared ns' ! 1))
                    = [Deferred (rolled ns' ! 0), Deferred (rolled ns' ! 0)]"
    using c[of "\<lambda>p. 0"] by blast
  from c[of rnd] lr[of rnd] l d s each poss show ?thesis
    by blast
qed


theorem cell5_compare_stage_witness:
  "\<exists>ns. cell5 (\<lambda>p. p) = Inr ns \<and> length (compared ns) = 20
      \<and> compared ns ! 0 = 29
      \<and> node_deps (graph ns ! (compared ns ! 0)) = [21, 22]
      \<and> deps (graph ns) (compared ns ! 0) = {21, 22}"
proof -
  from cell5_compare_stage[of "\<lambda>p. p"] obtain ns where
    c: "cell5 (\<lambda>p. p) = Inr ns" and l: "length (compared ns) = 20"
    and each: "\<forall>j<20. \<exists>a b. a = rolled ns ! ((\<lambda>p. p) (2 * j) mod 8)
              \<and> b = rolled ns ! ((\<lambda>p. p) (2 * j + 1) mod 8)
              \<and> a \<in> set (rolled ns) \<and> b \<in> set (rolled ns)
              \<and> graph ns ! (compared ns ! j) = \<lparr>fn = Compare, args = [Deferred a, Deferred b]\<rparr>
              \<and> node_deps (graph ns ! (compared ns ! j)) = [a, b]
              \<and> deps (graph ns) (compared ns ! j) = {a, b}
              \<and> card (deps (graph ns) (compared ns ! j)) = (if a = b then 1 else 2)"
    by blast
  have "(0::nat) < 20" by simp
  with each have e0: "node_deps (graph ns ! (compared ns ! 0))
                        = [rolled ns ! (2 * 0 mod 8), rolled ns ! ((2 * 0 + 1) mod 8)]"
    and e1: "deps (graph ns) (compared ns ! 0)
                        = {rolled ns ! (2 * 0 mod 8), rolled ns ! ((2 * 0 + 1) mod 8)}"
    by fastforce+
  from c have ns: "ns = etl_closed (filenames 10) ''sql://mytable'' 20 (\<lambda>p. p) new_session"
    by (simp add: cell5_eq)
  have v: "rolled ns ! (2 * 0 mod 8) = 21" "rolled ns ! ((2 * 0 + 1) mod 8) = 22"
    unfolding ns by (simp_all add: closed_nth length_filenames new_session_simps)
  have r: "compared ns ! 0 = 29"
    unfolding ns by (simp add: closed_nth length_filenames new_session_simps)
  from e0 e1 have "node_deps (graph ns ! (compared ns ! 0)) = [21, 22]"
    "deps (graph ns) (compared ns ! 0) = {21, 22}"
    unfolding v by simp_all
  with c l r show ?thesis
    by blast
qed

section \<open>Properties of every execution\<close>

lemma advances_refl: "advances s s"
  by (cases s) simp_all

lemma advances_trans: "advances a b \<Longrightarrow> advances b c \<Longrightarrow> advances a c"
  by (cases a; cases b) auto

lemma outcome_cases:
  "(\<exists>v. outcome body g st k = Finished v) \<or> (\<exists>e. outcome body g st k = Erred k e)"
  by (simp add: outcome_def split: sum.splits)

lemma fire_length: "fire body g st ev = Some st' \<Longrightarrow> length st' = length st"
  by (cases ev) (auto split: if_splits status.splits)

lemma fire_advances:
  assumes "fire body g st ev = Some st'" and "k < length st"
  shows "advances (st ! k) (st' ! k)"
proof (cases ev)
  case (Start j)
  with assms show ?thesis
    by (auto simp: nth_list_update advances_refl split: if_splits)
next
  case (Finish j)
  with assms outcome_cases[of body g st j] show ?thesis
    by (auto simp: nth_list_update advances_refl split: if_splits)
next
  case (Blame j d)
  with assms show ?thesis
    by (auto simp: nth_list_update advances_refl split: if_splits status.splits)
qed

lemma run_length: "run body g st evs = Some st' \<Longrightarrow> length st' = length st"
  by (induction evs arbitrary: st) (auto split: option.splits dest: fire_length)

lemma run_advances:
  "run body g st evs = Some st' \<Longrightarrow> k < length st \<Longrightarrow> advances (st ! k) (st' ! k)"
proof (induction evs arbitrary: st)
  case Nil
  then show ?case by (simp add: advances_refl)
next
  case (Cons e es)
  from Cons.prems obtain st1 where f: "fire body g st e = Some st1"
    and r: "run body g st1 es = Some st'"
    by (auto split: option.splits)
  from f Cons.prems(2) have "advances (st ! k) (st1 ! k)"
    by (rule fire_advances)
  moreover from r have "advances (st1 ! k) (st' ! k)"
    using Cons.IH Cons.prems(2) fire_length[OF f] by simp
  ultimately show ?case
    by (rule advances_trans)
qed

lemma run_append:
  "run body g st (xs @ ys) =
     (case run body g st xs of None \<Rightarrow> None | Some st1 \<Rightarrow> run body g st1 ys)"
  by (induction xs arbitrary: st) (auto split: option.splits)


lemma fire_cases:
  assumes "fire body g st ev = Some st'"
  obtains (start) k where "ev = Start k" "k < length g" "k < length st" "st ! k = Pending"
      "ready g st k" "st' = st[k := Running]"
    | (finish) k where "ev = Finish k" "k < length g" "k < length st" "st ! k = Running"
      "st' = st[k := outcome body g st k]"
    | (blame) k d origin e where "ev = Blame k d" "k < length g" "k < length st"
      "st ! k = Pending" "d \<in> deps g k" "d < length st" "st ! d = Erred origin e"
      "st' = st[k := Erred origin e]"
proof (cases ev)
  case (Start k)
  with assms start[of k] show ?thesis
    by (simp split: if_splits)
next
  case (Finish k)
  with assms finish[of k] show ?thesis
    by (simp split: if_splits)
next
  case (Blame k d)
  with assms blame[of k d] show ?thesis
    by (auto split: if_splits status.splits)
qed

lemma sound_update:
  assumes s: "sound g st" and j: "j < length st" and nf: "\<not> finished st j"
    and self: "started (st[j := s]) j \<Longrightarrow> \<forall>d\<in>deps g j. finished st d"
  shows "sound g (st[j := s])"
  unfolding sound_def
proof (intro allI impI ballI)
  fix k d assume k: "k < length g" and st: "started (st[j := s]) k" and d: "d \<in> deps g k"
  have "finished st d"
  proof (cases "k = j")
    case True
    with st self d show ?thesis by blast
  next
    case False
    with st have "started st k" by (auto simp: started_def finished_def)
    with s k d show ?thesis by (auto simp: sound_def)
  qed
  moreover from this nf have "d \<noteq> j" by auto
  ultimately show "finished (st[j := s]) d"
    by (auto simp: finished_def)
qed

lemma fire_sound:
  assumes s: "sound g st" and f: "fire body g st ev = Some st'"
  shows "sound g st'"
  using f
proof (cases rule: fire_cases)
  case (start k)
  have "\<not> finished st k" using start(4) by (simp add: finished_def)
  moreover have "\<forall>d\<in>deps g k. finished st d"
    using start(5) by (simp add: ready_def deps_def list_all_iff)
  ultimately show ?thesis
    unfolding start(6) using s start(3) by (intro sound_update) auto
next
  case (finish k)
  have nf: "\<not> finished st k" using finish(4) by (simp add: finished_def)
  have "started st k" using finish(3,4) by (simp add: started_def)
  with s finish(2) have "\<forall>d\<in>deps g k. finished st d"
    by (auto simp: sound_def)
  with nf show ?thesis
    unfolding finish(5) using s finish(3) by (intro sound_update) auto
next
  case (blame k d origin e)
  have nf: "\<not> finished st k" using blame(4) by (simp add: finished_def)
  have "\<not> started (st[k := Erred origin e]) k"
    using blame(3) by (simp add: started_def finished_def)
  with nf show ?thesis
    unfolding blame(8) using s blame(3) by (intro sound_update) auto
qed

lemma run_sound: "sound g st \<Longrightarrow> run body g st evs = Some st' \<Longrightarrow> sound g st'"
  by (induction evs arbitrary: st) (auto split: option.splits dest: fire_sound)

lemma submit_nth:
  "k < length g \<Longrightarrow> submit g t ! k = (if k \<in> graph_of g t then Pending else Absent)"
  by (simp add: submit_def)

lemma length_submit: "length (submit g t) = length g"
  by (simp add: submit_def)

lemma submit_sound: "sound g (submit g t)"
  by (auto simp: sound_def started_def finished_def submit_nth length_submit)

lemma sound_trancl:
  assumes "sound g st" and "(k, d) \<in> (dep_rel g)\<^sup>+" and "started st k"
  shows "finished st d"
  using assms(2,3)
proof (induction rule: trancl_induct)
  case (base d)
  with assms(1) show ?case by (auto simp: sound_def dep_rel_def)
next
  case (step m d)
  then have "finished st m" by simp
  then have "started st m" by (simp add: started_def finished_def)
  with step.hyps(2) assms(1) show ?case by (auto simp: sound_def dep_rel_def)
qed

lemma fire_other:
  assumes "fire body g st ev = Some st'" and "ev \<noteq> Start k" and "ev \<noteq> Finish k"
    and "\<forall>d. ev \<noteq> Blame k d"
  shows "st' ! k = st ! k"
  using assms(1)
proof (cases rule: fire_cases)
  case (start j)
  with assms(2) show ?thesis by auto
next
  case (finish j)
  with assms(3) show ?thesis by auto
next
  case (blame j d origin e)
  with assms(4) show ?thesis by auto
qed

lemma no_start_unless_pending:
  assumes "run body g st evs = Some st'" and "k < length st \<longrightarrow> st ! k \<noteq> Pending"
  shows "Start k \<notin> set evs"
  using assms
proof (induction evs arbitrary: st)
  case Nil
  show ?case by simp
next
  case (Cons e es)
  from Cons.prems(1) obtain st1 where f: "fire body g st e = Some st1"
    and r: "run body g st1 es = Some st'"
    by (auto split: option.splits)
  have "e \<noteq> Start k"
    using f Cons.prems(2) by (auto split: if_splits)
  moreover have "k < length st1 \<longrightarrow> st1 ! k \<noteq> Pending"
  proof
    assume "k < length st1"
    then have k: "k < length st" using fire_length[OF f] by simp
    from fire_advances[OF f k] Cons.prems(2) k show "st1 ! k \<noteq> Pending"
      by (cases "st ! k") auto
  qed
  ultimately show ?case using Cons.IH[OF r] by simp
qed

lemma no_finish_unless_active:
  assumes "run body g st evs = Some st'"
    and "k < length st \<longrightarrow> st ! k \<noteq> Pending \<and> st ! k \<noteq> Running"
  shows "Finish k \<notin> set evs"
  using assms
proof (induction evs arbitrary: st)
  case Nil
  show ?case by simp
next
  case (Cons e es)
  from Cons.prems(1) obtain st1 where f: "fire body g st e = Some st1"
    and r: "run body g st1 es = Some st'"
    by (auto split: option.splits)
  have "e \<noteq> Finish k"
    using f Cons.prems(2) by (auto split: if_splits)
  moreover have "k < length st1 \<longrightarrow> st1 ! k \<noteq> Pending \<and> st1 ! k \<noteq> Running"
  proof
    assume "k < length st1"
    then have k: "k < length st" using fire_length[OF f] by simp
    from fire_advances[OF f k] Cons.prems(2) k
    show "st1 ! k \<noteq> Pending \<and> st1 ! k \<noteq> Running"
      by (cases "st ! k") auto
  qed
  ultimately show ?case using Cons.IH[OF r] by simp
qed

lemma start_once:
  assumes "run body g st evs = Some st'"
  shows "count_list evs (Start k) \<le> 1"
  using assms
proof (induction evs arbitrary: st)
  case Nil
  show ?case by simp
next
  case (Cons e es)
  from Cons.prems obtain st1 where f: "fire body g st e = Some st1"
    and r: "run body g st1 es = Some st'"
    by (auto split: option.splits)
  show ?case
  proof (cases "e = Start k")
    case True
    with f have "k < length st1 \<longrightarrow> st1 ! k \<noteq> Pending"
      by (auto split: if_splits)
    from no_start_unless_pending[OF r this] have "count_list es (Start k) = 0"
      by (simp add: count_list_0_iff)
    with True show ?thesis by simp
  next
    case False
    with Cons.IH[OF r] show ?thesis by simp
  qed
qed

lemma finish_once:
  assumes "run body g st evs = Some st'"
  shows "count_list evs (Finish k) \<le> 1"
  using assms
proof (induction evs arbitrary: st)
  case Nil
  show ?case by simp
next
  case (Cons e es)
  from Cons.prems obtain st1 where f: "fire body g st e = Some st1"
    and r: "run body g st1 es = Some st'"
    by (auto split: option.splits)
  show ?case
  proof (cases "e = Finish k")
    case True
    with f outcome_cases[of body g st k]
    have "k < length st1 \<longrightarrow> st1 ! k \<noteq> Pending \<and> st1 ! k \<noteq> Running"
      by (auto split: if_splits)
    from no_finish_unless_active[OF r this] have "count_list es (Finish k) = 0"
      by (simp add: count_list_0_iff)
    with True show ?thesis by simp
  next
    case False
    with Cons.IH[OF r] show ?thesis by simp
  qed
qed

lemma start_needed:
  assumes "run body g st evs = Some st'" and "k < length st" and "st ! k = Pending"
    and "started st' k"
  shows "Start k \<in> set evs"
  using assms
proof (induction evs arbitrary: st)
  case Nil
  then show ?case by (simp add: started_def finished_def)
next
  case (Cons e es)
  from Cons.prems(1) obtain st1 where f: "fire body g st e = Some st1"
    and r: "run body g st1 es = Some st'"
    by (auto split: option.splits)
  have k1: "k < length st1" using fire_length[OF f] Cons.prems(2) by simp
  show ?case
  proof (cases "e = Start k")
    case True
    then show ?thesis by simp
  next
    case False
    have "e \<noteq> Finish k" using f Cons.prems(3) by (auto split: if_splits)
    have "st1 ! k = Pending"
    proof (cases "\<exists>d. e = Blame k d")
      case True
      with f obtain origin x where "st1 ! k = Erred origin x"
        using Cons.prems(2) by (auto split: if_splits status.splits)
      with run_advances[OF r k1] have "st' ! k = Erred origin x" by simp
      with Cons.prems(4) show ?thesis by (simp add: started_def finished_def)
    next
      case nb: False
      from fire_other[OF f False \<open>e \<noteq> Finish k\<close>] nb Cons.prems(3) show ?thesis by simp
    qed
    from Cons.IH[OF r k1 this Cons.prems(4)] show ?thesis by simp
  qed
qed

lemma finish_needed:
  assumes "run body g st evs = Some st'" and "k < length st"
    and "st ! k = Pending \<or> st ! k = Running" and "finished st' k"
  shows "Finish k \<in> set evs"
  using assms
proof (induction evs arbitrary: st)
  case Nil
  then show ?case by (auto simp: finished_def)
next
  case (Cons e es)
  from Cons.prems(1) obtain st1 where f: "fire body g st e = Some st1"
    and r: "run body g st1 es = Some st'"
    by (auto split: option.splits)
  have k1: "k < length st1" using fire_length[OF f] Cons.prems(2) by simp
  show ?case
  proof (cases "e = Finish k")
    case True
    then show ?thesis by simp
  next
    case False
    have "st1 ! k = Pending \<or> st1 ! k = Running"
    proof (cases "\<exists>d. e = Blame k d")
      case True
      with f obtain origin x where "st1 ! k = Erred origin x"
        using Cons.prems(2) by (auto split: if_splits status.splits)
      with run_advances[OF r k1] have "st' ! k = Erred origin x" by simp
      with Cons.prems(4) show ?thesis by (simp add: finished_def)
    next
      case nb: False
      show ?thesis
      proof (cases "e = Start k")
        case True
        with f show ?thesis by (auto split: if_splits)
      next
        case ns: False
        from fire_other[OF f ns False] nb Cons.prems(3) show ?thesis by simp
      qed
    qed
    from Cons.IH[OF r k1 this Cons.prems(4)] show ?thesis by simp
  qed
qed

text \<open>The graph of a deferred value is closed under dependencies.\<close>

lemma scan_mono: "acc \<subseteq> scan g i acc"
proof (induction i arbitrary: acc)
  case 0
  show ?case by simp
next
  case (Suc i)
  have "acc \<subseteq> (if i \<in> acc \<and> i < length g then acc \<union> deps g i else acc)"
    by auto
  also have "\<dots> \<subseteq> scan g i (if i \<in> acc \<and> i < length g then acc \<union> deps g i else acc)"
    by (rule Suc.IH)
  finally show ?case by simp
qed

lemma scan_closed:
  assumes "well_formed g" and "i \<le> length g"
    and "\<forall>k\<in>acc. i \<le> k \<longrightarrow> k < length g \<longrightarrow> deps g k \<subseteq> acc"
  shows "\<forall>k\<in>scan g i acc. k < length g \<longrightarrow> deps g k \<subseteq> scan g i acc"
  using assms(2,3)
proof (induction i arbitrary: acc)
  case 0
  then show ?case by simp
next
  case (Suc i)
  let ?acc = "if i \<in> acc \<and> i < length g then acc \<union> deps g i else acc"
  have i: "i < length g" using Suc.prems(1) by simp
  have "\<forall>k\<in>?acc. i \<le> k \<longrightarrow> k < length g \<longrightarrow> deps g k \<subseteq> ?acc"
  proof (intro ballI impI)
    fix k assume k: "k \<in> ?acc" and ik: "i \<le> k" and kl: "k < length g"
    show "deps g k \<subseteq> ?acc"
    proof (cases "k \<in> acc")
      case True
      show ?thesis
      proof (cases "k = i")
        case True
        with \<open>k \<in> acc\<close> i show ?thesis by auto
      next
        case False
        with ik have "Suc i \<le> k" by simp
        with Suc.prems(2) True kl have "deps g k \<subseteq> acc" by blast
        then show ?thesis by auto
      qed
    next
      case False
      with k have "k \<in> deps g i" by (auto split: if_splits)
      with assms(1) i have "k < i" by (auto simp: well_formed_def)
      with ik show ?thesis by simp
    qed
  qed
  from Suc.IH[OF _ this] i show ?case by simp
qed

lemma graph_of_self: "t \<in> graph_of g t"
  using scan_mono[of "{t}" g "Suc t"] by (auto simp: graph_of_def)

lemma graph_of_closed:
  assumes "well_formed g" and "t < length g" and "k \<in> graph_of g t" and "k < length g"
    and "d \<in> deps g k"
  shows "d \<in> graph_of g t"
proof -
  have "\<forall>k\<in>scan g (Suc t) {t}. k < length g \<longrightarrow> deps g k \<subseteq> scan g (Suc t) {t}"
    using assms(1,2) by (intro scan_closed) auto
  with assms(3,4,5) show ?thesis unfolding graph_of_def by blast
qed



lemma absent_iff:
  assumes "run body g (submit g t) evs = Some st" and "k < length g"
  shows "st ! k = Absent \<longleftrightarrow> k \<notin> graph_of g t"
proof -
  have "advances (submit g t ! k) (st ! k)"
    using run_advances[OF assms(1)] assms(2) by (simp add: length_submit)
  then show ?thesis using assms(2) by (auto simp: submit_nth split: if_splits)
qed

lemma settle_prefix:
  assumes wf: "well_formed g" and t: "t < length g"
  shows "n \<le> length g \<Longrightarrow>
    \<exists>evs st. run body g (submit g t) evs = Some st
      \<and> (\<forall>k<n. st ! k \<noteq> Pending \<and> st ! k \<noteq> Running)
      \<and> (\<forall>k. n \<le> k \<longrightarrow> k < length g \<longrightarrow> st ! k = submit g t ! k)"
proof (induction n)
  case 0
  have "run body g (submit g t) [] = Some (submit g t)" by simp
  then show ?case by blast
next
  case (Suc n)
  then have n: "n < length g" by simp
  from Suc obtain evs st where r: "run body g (submit g t) evs = Some st"
    and below: "\<forall>k<n. st ! k \<noteq> Pending \<and> st ! k \<noteq> Running"
    and rest: "\<forall>k. n \<le> k \<longrightarrow> k < length g \<longrightarrow> st ! k = submit g t ! k"
    by auto
  have len: "length st = length g"
    using run_length[OF r] by (simp add: length_submit)
  show ?case
  proof (cases "n \<in> graph_of g t")
    case False
    with rest n have "st ! n = Absent" by (simp add: submit_nth)
    with below have "\<forall>k<Suc n. st ! k \<noteq> Pending \<and> st ! k \<noteq> Running"
      by (auto simp: less_Suc_eq)
    with r rest show ?thesis by (intro exI[of _ evs] exI[of _ st]) auto
  next
    case True
    with rest n have pend: "st ! n = Pending" by (simp add: submit_nth)
    have dep: "d < n \<and> (finished st d \<or> (\<exists>origin e. st ! d = Erred origin e))"
      if d: "d \<in> deps g n" for d
    proof -
      from wf n d have dn: "d < n" by (auto simp: well_formed_def)
      from graph_of_closed[OF wf t True n d] have "d \<in> graph_of g t" .
      with absent_iff[OF r, of d] dn n have "st ! d \<noteq> Absent" by simp
      with below dn n len show ?thesis
        by (cases "st ! d") (auto simp: finished_def)
    qed
    show ?thesis
    proof (cases "\<forall>d\<in>deps g n. finished st d")
      case True
      then have "ready g st n" by (simp add: ready_def deps_def list_all_iff)
      with pend n len have f1: "fire body g st (Start n) = Some (st[n := Running])"
        by simp
      let ?st2 = "st[n := outcome body g (st[n := Running]) n]"
      have f2: "fire body g (st[n := Running]) (Finish n) = Some ?st2"
        using n len by simp
      have r2: "run body g (submit g t) (evs @ [Start n, Finish n]) = Some ?st2"
        using r f1 f2 by (simp add: run_append)
      have "?st2 ! n \<noteq> Pending \<and> ?st2 ! n \<noteq> Running"
        using outcome_cases[of body g "st[n := Running]" n] n len by auto
      with below have "\<forall>k<Suc n. ?st2 ! k \<noteq> Pending \<and> ?st2 ! k \<noteq> Running"
        by (auto simp: less_Suc_eq)
      moreover have "\<forall>k. Suc n \<le> k \<longrightarrow> k < length g \<longrightarrow> ?st2 ! k = submit g t ! k"
        using rest by auto
      ultimately show ?thesis using r2 by blast
    next
      case False
      then obtain d origin e where d: "d \<in> deps g n" and e: "st ! d = Erred origin e"
        using dep by blast
      from dep[OF d] n len have "d < length st" by simp
      with pend n len d e have f: "fire body g st (Blame n d) = Some (st[n := Erred origin e])"
        by simp
      let ?st1 = "st[n := Erred origin e]"
      have r1: "run body g (submit g t) (evs @ [Blame n d]) = Some ?st1"
        using r f by (simp add: run_append)
      have "?st1 ! n \<noteq> Pending \<and> ?st1 ! n \<noteq> Running"
        using n len by simp
      with below have "\<forall>k<Suc n. ?st1 ! k \<noteq> Pending \<and> ?st1 ! k \<noteq> Running"
        by (auto simp: less_Suc_eq)
      moreover have "\<forall>k. Suc n \<le> k \<longrightarrow> k < length g \<longrightarrow> ?st1 ! k = submit g t ! k"
        using rest by auto
      ultimately show ?thesis using r1 by blast
    qed
  qed
qed

lemma settled_execution_exists:
  assumes "well_formed g" and "t < length g"
  shows "\<exists>evs st. run body g (submit g t) evs = Some st \<and> settled st"
proof -
  from settle_prefix[OF assms, of "length g" body] obtain evs st
    where r: "run body g (submit g t) evs = Some st"
      and below: "\<forall>k<length g. st ! k \<noteq> Pending \<and> st ! k \<noteq> Running"
    by auto
  have "length st = length g"
    using run_length[OF r] by (simp add: length_submit)
  with below have "settled st"
    by (auto simp: settled_def list_all_length)
  with r show ?thesis by blast
qed

lemma settled_cases:
  assumes "run body g (submit g t) evs = Some st" and "settled st" and "k \<in> graph_of g t"
    and "k < length g"
  shows "finished st k \<or> (\<exists>origin e. st ! k = Erred origin e)"
proof -
  have len: "length st = length g"
    using run_length[OF assms(1)] by (simp add: length_submit)
  from absent_iff[OF assms(1,4)] assms(3) have "st ! k \<noteq> Absent" by simp
  moreover from assms(2,4) len have "st ! k \<noteq> Pending \<and> st ! k \<noteq> Running"
    by (auto simp: settled_def list_all_length)
  ultimately show ?thesis using assms(4) len
    by (cases "st ! k") (auto simp: finished_def)
qed

text \<open>With the task functions of the notebook nothing fails and every result is \<open>None\<close>.\<close>

lemma call_task_arity: "length xs = arity f \<Longrightarrow> call_task f xs = Inr PNone"
  by (cases f)
     (auto simp: length_Suc_conv eval_nat_numeral load_def load_from_sql_def process_def
        roll_def compare_def reduction_def)

lemma fire_clean:
  assumes wc: "well_called g" and c: "clean st" and f: "fire call_task g st ev = Some st'"
  shows "clean st'"
  using f
proof (cases rule: fire_cases)
  case (start k)
  have "set st' \<subseteq> insert Running (set st)"
    unfolding start(6) by (rule set_update_subset_insert)
  with c show ?thesis by (auto simp: clean_def)
next
  case (finish k)
  from wc finish(2) have "length (args (g ! k)) = arity (fn (g ! k))"
    by (simp add: well_called_def)
  then have "outcome call_task g st k = Finished PNone"
    by (simp add: outcome_def call_task_arity)
  then have "set st' \<subseteq> insert (Finished PNone) (set st)"
    unfolding finish(5) by (simp add: set_update_subset_insert)
  with c show ?thesis by (auto simp: clean_def)
next
  case (blame k d origin e)
  from blame(6,7) have "Erred origin e \<in> set st"
    by (metis nth_mem)
  with c show ?thesis by (auto simp: clean_def)
qed

lemma run_clean:
  "well_called g \<Longrightarrow> clean st \<Longrightarrow> run call_task g st evs = Some st' \<Longrightarrow> clean st'"
  by (induction evs arbitrary: st) (auto split: option.splits dest: fire_clean)

lemma submit_clean: "clean (submit g t)"
  by (auto simp: clean_def submit_def)

lemma clean_nth:
  assumes "clean st" and "k < length st"
  shows "st ! k = Absent \<or> st ! k = Pending \<or> st ! k = Running \<or> st ! k = Finished PNone"
proof -
  from assms(2) have "st ! k \<in> set st" by simp
  with assms(1) show ?thesis by (cases "st ! k") (auto simp: clean_def)
qed

lemma etl_closed_well_called:
  assumes "well_called (tasks s0)"
  shows "well_called (graph (etl_closed fns address n_pairs rnd s0))"
  using assms
  by (auto simp: well_called_def etl_closed_def graph_def Let_def load_node_def sql_node_def
        process_node_def roll_node_def compare_node_def reduction_node_def)

lemma new_session_well_called: "well_called (tasks new_session)"
  by (simp add: well_called_def new_session_def)

lemma etl_InrD:
  assumes "etl fns address n_pairs rnd s0 = Inr ns"
  shows "ns = etl_closed fns address n_pairs rnd s0" and "\<not> (length fns \<le> 2 \<and> 0 < n_pairs)"
  using assms by (auto simp: etl_eq split: if_splits)

lemma closed_best_last:
  "best (etl_closed fns address n_pairs rnd s0) < length (graph (etl_closed fns address n_pairs rnd s0))"
  by (simp add: closed_fields)

lemma notebook_execution_clean:
  assumes "well_called g" and "run call_task g (submit g t) evs = Some st"
  shows "clean st" and "length st = length g"
  using run_clean[OF assms(1) submit_clean assms(2)] run_length[OF assms(2)]
  by (simp_all add: length_submit)

lemma notebook_settled_finished:
  assumes "well_called g" and "run call_task g (submit g t) evs = Some st" and "settled st"
    and "k \<in> graph_of g t" and "k < length g"
  shows "st ! k = Finished PNone"
proof -
  from notebook_execution_clean[OF assms(1,2)] have c: "clean st" and l: "length st = length g" .
  from settled_cases[OF assms(2,3,4,5)] clean_nth[OF c, of k] assms(5) l show ?thesis
    by (auto simp: finished_def)
qed

section \<open>An execution of the small run\<close>

lemma scan_numeral:
  "scan g (numeral n) acc =
     scan g (pred_numeral n)
       (if pred_numeral n \<in> acc \<and> pred_numeral n < length g
        then acc \<union> deps g (pred_numeral n) else acc)"
  by (simp add: numeral_eq_Suc)

lemma small_graph_of: "graph_of (graph small_run) 13 = {0, 1, 2, 3, 4, 5, 6, 7, 8, 9, 10, 11, 12, 13}"
  by (simp add: graph_of_def graph_def small_run_def scan_numeral deps_def node_deps_def
        insert_commute)

lemma small_length: "length (graph small_run) = 14"
  by (simp add: graph_def small_run_def)

lemma small_submit:
  "submit (graph small_run) (best small_run) =
     [Pending, Pending, Pending, Pending, Pending, Pending, Pending, Pending,
      Pending, Pending, Pending, Pending, Pending, Pending]"
proof -
  have "best small_run = 13" by (simp add: small_run_def)
  then show ?thesis
    by (simp add: submit_def small_length small_graph_of upt_rec)
qed

lemma list_update_numeral:
  "(x # xs)[numeral n := y] = x # xs[pred_numeral n := y]"
  by (simp add: numeral_eq_Suc)

lemma small_execution:
  "run call_task (graph small_run) (submit (graph small_run) (best small_run)) small_schedule =
     Some [Finished PNone, Finished PNone, Finished PNone, Finished PNone, Finished PNone,
           Finished PNone, Finished PNone, Finished PNone, Finished PNone, Finished PNone,
           Finished PNone, Finished PNone, Finished PNone, Finished PNone]"
  unfolding small_submit
  by (simp add: small_schedule_def graph_def small_run_def ready_def finished_def
        node_deps_def outcome_def list_update_numeral load_def load_from_sql_def process_def
        roll_def compare_def reduction_def)

lemma small_execution_final:
  "run call_task (graph small_run) (submit (graph small_run) (best small_run)) small_schedule
     = Some small_final"
  by (simp add: small_execution small_final_def)

lemma small_final_settled: "settled small_final"
  by (simp add: settled_def small_final_def)

section \<open>Paths to the reference node\<close>

lemma dep_relI: "k < length g \<Longrightarrow> d \<in> set (node_deps (g ! k)) \<Longrightarrow> (k, d) \<in> dep_rel g"
  by (simp add: dep_rel_def deps_def)

lemma closed_bounds:
  "k \<in> set (processed (etl_closed fns address n_pairs rnd s0))
     \<Longrightarrow> k < length (graph (etl_closed fns address n_pairs rnd s0))"
  "k \<in> set (rolled (etl_closed fns address n_pairs rnd s0))
     \<Longrightarrow> k < length (graph (etl_closed fns address n_pairs rnd s0))"
  "k \<in> set (compared (etl_closed fns address n_pairs rnd s0))
     \<Longrightarrow> k < length (graph (etl_closed fns address n_pairs rnd s0))"
  by (simp_all add: closed_set closed_set_compared closed_fields(7))

lemma closed_reference_path:
  assumes ok: "\<not> (length fns \<le> 2 \<and> 0 < n_pairs)"
  shows "p \<in> set (processed (etl_closed fns address n_pairs rnd s0)) \<Longrightarrow>
           (p, reference (etl_closed fns address n_pairs rnd s0))
             \<in> dep_rel (graph (etl_closed fns address n_pairs rnd s0))"
    and "k \<in> set (rolled (etl_closed fns address n_pairs rnd s0)) \<Longrightarrow>
           (k, reference (etl_closed fns address n_pairs rnd s0))
             \<in> (dep_rel (graph (etl_closed fns address n_pairs rnd s0)))\<^sup>+"
    and "c \<in> set (compared (etl_closed fns address n_pairs rnd s0)) \<Longrightarrow>
           (c, reference (etl_closed fns address n_pairs rnd s0))
             \<in> (dep_rel (graph (etl_closed fns address n_pairs rnd s0)))\<^sup>+"
    and "0 < n_pairs \<Longrightarrow>
           (best (etl_closed fns address n_pairs rnd s0),
            reference (etl_closed fns address n_pairs rnd s0))
             \<in> (dep_rel (graph (etl_closed fns address n_pairs rnd s0)))\<^sup>+"
proof -
  let ?ns = "etl_closed fns address n_pairs rnd s0"
  let ?r = "dep_rel (graph ?ns)"
  have P: "(p, reference ?ns) \<in> ?r" if p: "p \<in> set (processed ?ns)" for p
  proof -
    from p obtain i where i: "i < length fns" and pi: "p = processed ?ns ! i"
      by (auto simp: in_set_conv_nth closed_length)
    have "reference ?ns \<in> set (node_deps (graph ?ns ! p))"
      unfolding pi by (simp add: closed_at(3)[OF i] node_deps_simps)
    with closed_bounds(1)[OF p] show ?thesis by (rule dep_relI)
  qed
  have R: "(k, reference ?ns) \<in> ?r\<^sup>+" if k: "k \<in> set (rolled ?ns)" for k
  proof -
    from k obtain i where i: "i < length fns - 2" and ki: "k = rolled ?ns ! i"
      by (auto simp: in_set_conv_nth closed_length)
    have "processed ?ns ! i \<in> set (node_deps (graph ?ns ! k))"
      unfolding ki by (simp add: closed_at(4)[OF i] node_deps_simps)
    with closed_bounds(2)[OF k] have "(k, processed ?ns ! i) \<in> ?r" by (rule dep_relI)
    moreover have "processed ?ns ! i \<in> set (processed ?ns)"
      using i by (intro nth_mem) (simp add: closed_length)
    ultimately show ?thesis using P by (meson trancl.simps)
  qed
  have C: "(c, reference ?ns) \<in> ?r\<^sup>+" if c: "c \<in> set (compared ?ns)" for c
  proof -
    from c obtain j where j: "j < nat n_pairs" and cj: "c = compared ?ns ! j"
      by (auto simp: in_set_conv_nth closed_length)
    from j ok have ne: "0 < length (rolled ?ns)" by (auto simp: closed_length)
    let ?a = "rolled ?ns ! (rnd (rng_pos s0 + 2 * j) mod length (rolled ?ns))"
    have "?a \<in> set (node_deps (graph ?ns ! c))"
      unfolding cj by (simp add: closed_at(5)[OF j] node_deps_simps)
    with closed_bounds(3)[OF c] have "(c, ?a) \<in> ?r" by (rule dep_relI)
    moreover have "?a \<in> set (rolled ?ns)"
      using ne by (intro nth_mem) simp
    ultimately show ?thesis using R by (meson trancl_into_trancl2)
  qed
  show "p \<in> set (processed ?ns) \<Longrightarrow> (p, reference ?ns) \<in> ?r" by (rule P)
  show "k \<in> set (rolled ?ns) \<Longrightarrow> (k, reference ?ns) \<in> ?r\<^sup>+" by (rule R)
  show "c \<in> set (compared ?ns) \<Longrightarrow> (c, reference ?ns) \<in> ?r\<^sup>+" by (rule C)
  show "(best ?ns, reference ?ns) \<in> ?r\<^sup>+" if m: "0 < n_pairs"
  proof -
    from m have j: "0 < nat n_pairs" by simp
    then have mem: "compared ?ns ! 0 \<in> set (compared ?ns)"
      by (intro nth_mem) (simp add: closed_length)
    then have "compared ?ns ! 0 \<in> set (node_deps (graph ?ns ! best ?ns))"
      by (simp add: closed_at(6) node_deps_simps)
    with closed_best_last have "(best ?ns, compared ?ns ! 0) \<in> ?r" by (rule dep_relI)
    with C[OF mem] show ?thesis by (meson trancl_into_trancl2)
  qed
qed

lemma started_needs_dependencies:
  assumes "run body g (submit g t) evs = Some st" and "(k, d) \<in> (dep_rel g)\<^sup>+"
  shows "started st k \<Longrightarrow> finished st d"
    and "fire body g st (Start k) \<noteq> None \<Longrightarrow> finished st d"
proof -
  have s: "sound g st"
    using run_sound[OF submit_sound assms(1)] .
  show a: "started st k \<Longrightarrow> finished st d"
    using sound_trancl[OF s assms(2)] .
  assume "fire body g st (Start k) \<noteq> None"
  then have k: "k < length g" "k < length st" "st ! k = Pending" "ready g st k"
    by (auto split: if_splits)
  from assms(2) obtain m where m: "(k, m) \<in> dep_rel g" and md: "(m, d) \<in> (dep_rel g)\<^sup>*"
    by (meson tranclD)
  from m k(4) have fm: "finished st m"
    by (auto simp: dep_rel_def deps_def ready_def list_all_iff)
  show "finished st d"
  proof (cases "m = d")
    case True
    with fm show ?thesis by simp
  next
    case False
    with md have "(m, d) \<in> (dep_rel g)\<^sup>+" by (simp add: rtrancl_eq_or_trancl)
    moreover from fm have "started st m" by (simp add: started_def finished_def)
    ultimately show ?thesis using sound_trancl[OF s] by blast
  qed
qed

section \<open>The two runs of the notebook\<close>

text \<open>
  Cell 5 runs in a fresh session and cell 12 in the session cell 5 leaves behind.
  Neither raises, whatever the random generator does, and both leave a session that is
  well formed (hence acyclic) and well called: the sessions the theorems on \<open>etl\<close>
  start from. The second graph holds the 50 nodes of the first and 500 new ones.
\<close>

lemma sess_closed_tasks:
  "tasks (sess (etl_closed fns address n_pairs rnd s0)) = graph (etl_closed fns address n_pairs rnd s0)"
  by (simp add: graph_def)

lemma notebook_runs:
  "\<exists>ns5 ns12. notebook rnd = Inr (ns5, ns12)
      \<and> cell5 rnd = Inr ns5 \<and> cell12 rnd (sess ns5) = Inr ns12
      \<and> well_formed (graph ns5) \<and> well_called (graph ns5)
      \<and> well_formed (graph ns12) \<and> well_called (graph ns12)
      \<and> acyclic (dep_rel (graph ns5)) \<and> acyclic (dep_rel (graph ns12))
      \<and> length (graph ns5) = 50 \<and> length (graph ns12) = 550"
proof -
  let ?ns5 = "etl_closed (filenames 10) ''sql://mytable'' 20 rnd new_session"
  let ?ns12 = "etl_closed (filenames 100) ''sql://mytable'' 200 rnd (sess ?ns5)"
  have c5: "cell5 rnd = Inr ?ns5" by (rule cell5_eq)
  have c12: "cell12 rnd (sess ?ns5) = Inr ?ns12"
    by (simp add: cell12_def etl_eq length_filenames)
  have nb: "notebook rnd = Inr (?ns5, ?ns12)"
    by (simp add: notebook_def c5 c12)
  have wf5: "well_formed (graph ?ns5)"
    by (rule etl_closed_well_formed[OF new_session_well_formed]) (simp add: length_filenames)
  have wc5: "well_called (graph ?ns5)"
    by (rule etl_closed_well_called[OF new_session_well_called])
  have wf12: "well_formed (graph ?ns12)"
    by (rule etl_closed_well_formed) (simp_all add: sess_closed_tasks wf5 length_filenames)
  have wc12: "well_called (graph ?ns12)"
    by (rule etl_closed_well_called) (simp add: sess_closed_tasks wc5)
  have l5: "length (graph ?ns5) = 50"
    by (simp add: closed_fields(7) length_filenames new_session_def)
  have l12: "length (graph ?ns12) = 550"
    by (simp add: closed_fields(7) length_filenames sess_closed_tasks new_session_simps)
  note ac5 = well_formed_acyclic[OF wf5] and ac12 = well_formed_acyclic[OF wf12]
  from nb c5 c12 wf5 wc5 wf12 wc12 ac5 ac12 l5 l12 show ?thesis
    by (intro exI[of _ ?ns5] exI[of _ ?ns12] conjI) assumption+
qed

section \<open>The result of the terminal future\<close>

text \<open>
  Claim C9. Every task function returns \<^verbatim>\<open>None\<close> for every input. The terminal
  node of every graph the builder produces (any file names, SQL address, number of pairs
  and random choices, in a fresh session or after earlier runs of the builder, see
  \<open>notebook_runs\<close>) is a reduction node, and calling its function on its arguments
  gives \<^verbatim>\<open>None\<close> whatever the results of its dependencies are. Hence awaiting the
  terminal future gives nothing while the submission is unsettled and \<^verbatim>\<open>None\<close>
  once it is settled, never an error; and a settled execution exists.
\<close>

theorem etl_result_none:
  assumes "well_formed (tasks s0)" and "well_called (tasks s0)"
    and "etl fns address n_pairs rnd s0 = Inr ns"
  shows "(\<forall>a. load a = PNone) \<and> (\<forall>a. load_from_sql a = PNone)
       \<and> (\<forall>a b. process a b = PNone) \<and> (\<forall>a b c. roll a b c = PNone)
       \<and> (\<forall>a b. compare a b = PNone) \<and> (\<forall>s. reduction s = PNone)
       \<and> fn (graph ns ! best ns) = Reduction
       \<and> (\<forall>st. outcome call_task (graph ns) st (best ns) = Finished PNone)
       \<and> (\<forall>evs st. run call_task (graph ns) (submit (graph ns) (best ns)) evs = Some st \<longrightarrow>
             (await st (best ns) = None \<or> await st (best ns) = Some (Inr PNone))
             \<and> (settled st \<longrightarrow> await st (best ns) = Some (Inr PNone)))
       \<and> (\<exists>evs st. run call_task (graph ns) (submit (graph ns) (best ns)) evs = Some st
             \<and> settled st \<and> await st (best ns) = Some (Inr PNone))"
proof -
  note ns = etl_InrD[OF assms(3)]
  have wf: "well_formed (graph ns)"
    unfolding ns(1) by (rule etl_closed_well_formed[OF assms(1) ns(2)])
  have wc: "well_called (graph ns)"
    unfolding ns(1) by (rule etl_closed_well_called[OF assms(2)])
  have b: "best ns < length (graph ns)"
    unfolding ns(1) by (rule closed_best_last)
  have b1: "\<forall>a. load a = PNone" and b2: "\<forall>a. load_from_sql a = PNone"
    and b3: "\<forall>a b. process a b = PNone" and b4: "\<forall>a b c. roll a b c = PNone"
    and b5: "\<forall>a b. compare a b = PNone" and b6: "\<forall>s. reduction s = PNone"
    by (simp_all add: load_def load_from_sql_def process_def roll_def compare_def reduction_def)
  have kind: "fn (graph ns ! best ns) = Reduction"
    unfolding ns(1) by (simp add: closed_at(6) fn_simps)
  have out: "\<forall>st. outcome call_task (graph ns) st (best ns) = Finished PNone"
    unfolding ns(1)
    by (simp add: outcome_def closed_at(6) reduction_node_def reduction_def)
  have every: "\<forall>evs st. run call_task (graph ns) (submit (graph ns) (best ns)) evs = Some st \<longrightarrow>
             (await st (best ns) = None \<or> await st (best ns) = Some (Inr PNone))
             \<and> (settled st \<longrightarrow> await st (best ns) = Some (Inr PNone))"
  proof (intro allI impI conjI)
    fix evs st
    assume r: "run call_task (graph ns) (submit (graph ns) (best ns)) evs = Some st"
    from notebook_execution_clean[OF wc r] b
    have "st ! best ns = Absent \<or> st ! best ns = Pending \<or> st ! best ns = Running
          \<or> st ! best ns = Finished PNone"
      by (intro clean_nth) simp_all
    then show "await st (best ns) = None \<or> await st (best ns) = Some (Inr PNone)"
      by (auto simp: await_def)
    show "await st (best ns) = Some (Inr PNone)" if "settled st"
      using notebook_settled_finished[OF wc r that graph_of_self b]
        notebook_execution_clean(2)[OF wc r] b
      by (simp add: await_def)
  qed
  from settled_execution_exists[OF wf b, of call_task] obtain evs st
    where r: "run call_task (graph ns) (submit (graph ns) (best ns)) evs = Some st"
      and s: "settled st"
    by blast
  from every[rule_format, OF r] s have "await st (best ns) = Some (Inr PNone)"
    by simp
  with r s have ex: "\<exists>evs st. run call_task (graph ns) (submit (graph ns) (best ns)) evs = Some st
             \<and> settled st \<and> await st (best ns) = Some (Inr PNone)"
    by (intro exI[of _ evs] exI[of _ st]) simp
  from b1 b2 b3 b4 b5 b6 kind out every ex show ?thesis
    by (intro conjI) assumption+
qed

theorem etl_result_none_witness:
  "well_formed (tasks new_session) \<and> well_called (tasks new_session)
   \<and> etl (filenames 4) ''sql://mytable'' 2 (\<lambda>p. p) new_session = Inr small_run
   \<and> run call_task (graph small_run) (submit (graph small_run) (best small_run)) small_schedule
        = Some small_final
   \<and> settled small_final
   \<and> await small_final (best small_run) = Some (Inr PNone)"
proof -
  note th = etl_result_none[OF new_session_well_formed new_session_well_called small_run_eq]
  have parts: "(await small_final (best small_run) = None
                 \<or> await small_final (best small_run) = Some (Inr PNone))
               \<and> (settled small_final \<longrightarrow> await small_final (best small_run) = Some (Inr PNone))"
    using th small_execution_final by - (elim conjE, erule allE, erule allE, erule mp, assumption)
  with small_final_settled have "await small_final (best small_run) = Some (Inr PNone)"
    by simp
  with new_session_well_formed new_session_well_called small_run_eq small_execution_final
    small_final_settled
  show ?thesis by (intro conjI) assumption+
qed

section \<open>The reference node comes first\<close>

text \<open>
  Claim C10. In every graph the builder produces with at least one sampled pair (cell 5
  samples 20, cell 12 samples 200), the builder adds exactly one \<open>Load_from_sql\<close> node,
  the reference; the process, roll, compare and reduction nodes it adds are the keys of
  \<open>processed\<close>, \<open>rolled\<close>, \<open>compared\<close> and \<open>best\<close>; and every one of them
  depends on the reference, directly or transitively. Consequently, in every state in
  which started nodes have their dependencies finished, such a node has started only if
  the reference node has finished; every execution of every submission, under any task
  semantics, only passes through such states, and it can start such a node only in a
  state in which the reference node has finished.
\<close>

theorem reference_before_downstream:
  assumes "etl fns address n_pairs rnd s0 = Inr ns" and "0 < n_pairs"
  shows "fn (graph ns ! reference ns) = Load_from_sql
     \<and> {k. length (tasks s0) \<le> k \<and> k < length (graph ns) \<and> fn (graph ns ! k) = Load_from_sql}
         = {reference ns}
     \<and> {k. length (tasks s0) \<le> k \<and> k < length (graph ns)
            \<and> fn (graph ns ! k) \<in> {Process, Roll, Compare, Reduction}}
         = set (processed ns) \<union> set (rolled ns) \<union> set (compared ns) \<union> {best ns}
     \<and> (\<forall>k\<in>set (processed ns) \<union> set (rolled ns) \<union> set (compared ns) \<union> {best ns}.
          (k, reference ns) \<in> (dep_rel (graph ns))\<^sup>+
        \<and> (\<forall>st. sound (graph ns) st \<longrightarrow> started st k \<longrightarrow> finished st (reference ns))
        \<and> (\<forall>body t evs st. run body (graph ns) (submit (graph ns) t) evs = Some st \<longrightarrow>
              sound (graph ns) st
            \<and> (started st k \<longrightarrow> finished st (reference ns))
            \<and> (fire body (graph ns) st (Start k) \<noteq> None \<longrightarrow> finished st (reference ns))))"
proof -
  note ns = etl_InrD[OF assms(1)]
  have a: "fn (graph ns ! reference ns) = Load_from_sql"
    unfolding ns(1) by (simp add: closed_at(2) fn_simps)
  have b: "{k. length (tasks s0) \<le> k \<and> k < length (graph ns) \<and> fn (graph ns ! k) = Load_from_sql}
         = {reference ns}"
    unfolding ns(1)
    by (auto simp: closed_fn closed_set closed_set_compared closed_fields(2,7) split: if_splits)
  have kinds: "{k. length (tasks s0) \<le> k \<and> k < length (graph ns)
            \<and> fn (graph ns ! k) \<in> {Process, Roll, Compare, Reduction}}
         = set (processed ns) \<union> set (rolled ns) \<union> set (compared ns) \<union> {best ns}"
    unfolding ns(1)
    by (auto simp: closed_fn closed_set closed_set_compared closed_fields(2,6,7)
          split: if_splits)
  have path: "(k, reference ns) \<in> (dep_rel (graph ns))\<^sup>+"
    if "k \<in> set (processed ns) \<union> set (rolled ns) \<union> set (compared ns) \<union> {best ns}" for k
    using that closed_reference_path[OF ns(2)] assms(2)
    unfolding ns(1) by blast
  have c: "\<forall>k\<in>set (processed ns) \<union> set (rolled ns) \<union> set (compared ns) \<union> {best ns}.
          (k, reference ns) \<in> (dep_rel (graph ns))\<^sup>+
        \<and> (\<forall>st. sound (graph ns) st \<longrightarrow> started st k \<longrightarrow> finished st (reference ns))
        \<and> (\<forall>body t evs st. run body (graph ns) (submit (graph ns) t) evs = Some st \<longrightarrow>
              sound (graph ns) st
            \<and> (started st k \<longrightarrow> finished st (reference ns))
            \<and> (fire body (graph ns) st (Start k) \<noteq> None \<longrightarrow> finished st (reference ns)))"
  proof (intro ballI conjI allI impI)
    fix k assume k: "k \<in> set (processed ns) \<union> set (rolled ns) \<union> set (compared ns) \<union> {best ns}"
    show "(k, reference ns) \<in> (dep_rel (graph ns))\<^sup>+"
      by (rule path[OF k])
    show "finished st (reference ns)" if "sound (graph ns) st" and "started st k" for st
      using sound_trancl[OF that(1) path[OF k] that(2)] .
    show "sound (graph ns) st"
      if "run body (graph ns) (submit (graph ns) t) evs = Some st" for body t evs st
      using run_sound[OF submit_sound that] .
    show "finished st (reference ns)"
      if "run body (graph ns) (submit (graph ns) t) evs = Some st" and "started st k"
      for body t evs st
      using started_needs_dependencies(1)[OF that(1) path[OF k] that(2)] .
    show "finished st (reference ns)"
      if "run body (graph ns) (submit (graph ns) t) evs = Some st"
        and "fire body (graph ns) st (Start k) \<noteq> None"
      for body t evs st
      using started_needs_dependencies(2)[OF that(1) path[OF k] that(2)] .
  qed
  from a b kinds c show ?thesis
    by (intro conjI) assumption+
qed

theorem reference_before_downstream_witness:
  "etl (filenames 4) ''sql://mytable'' 2 (\<lambda>p. p) new_session = Inr small_run
   \<and> (0::int) < 2
   \<and> best small_run = 13 \<and> reference small_run = 4
   \<and> (13, 4) \<in> (dep_rel (graph small_run))\<^sup>+
   \<and> run call_task (graph small_run) (submit (graph small_run) (best small_run)) small_schedule
        = Some small_final
   \<and> sound (graph small_run) small_final
   \<and> started small_final 13 \<and> finished small_final 4"
proof -
  have two: "(0::int) < 2" by simp
  have b: "best small_run = 13" and r: "reference small_run = 4"
    by (simp_all add: small_run_def)
  have mem: "best small_run \<in> set (processed small_run) \<union> set (rolled small_run)
               \<union> set (compared small_run) \<union> {best small_run}"
    by simp
  have st: "started small_final (best small_run)"
    by (simp add: started_def finished_def small_final_def small_run_def)
  note th = reference_before_downstream[OF small_run_eq two]
  note at_best = th[THEN conjunct2, THEN conjunct2, THEN conjunct2, THEN bspec, OF mem]
  note on_run = at_best[THEN conjunct2, THEN conjunct2, rule_format, OF small_execution_final]
  have p: "(best small_run, reference small_run) \<in> (dep_rel (graph small_run))\<^sup>+"
    by (rule at_best[THEN conjunct1])
  have s: "sound (graph small_run) small_final"
    by (rule on_run[THEN conjunct1])
  have f: "finished small_final (reference small_run)"
    by (rule on_run[THEN conjunct2, THEN conjunct1, rule_format, OF st])
  from small_run_eq two b r p small_execution_final s st f show ?thesis
    unfolding b r by (intro conjI) simp_all
qed

section \<open>The reduction node\<close>

text \<open>
  Claim C5. In the graph of cell 5, for every behaviour of the random generator, the
  only reduction node is the terminal node; it was called with the list of the 20 compare
  nodes and has exactly these 20 distinct nodes as dependencies. In every state in which
  started nodes have their dependencies finished, the reduction node has started only if
  all 20 compare nodes have finished. In every execution of a submission of this node,
  no node starts or finishes more than once; the event that starts the reduction node
  stands after a prefix that leaves all 20 compare nodes finished; in a settled
  execution the reduction node has finished, having started and finished exactly once.
  A settled execution exists.
\<close>

theorem cell5_reduction:
  "\<exists>ns. cell5 rnd = Inr ns
     \<and> graph ns ! best ns = \<lparr>fn = Reduction, args = [Container (map Deferred (compared ns))]\<rparr>
     \<and> {k. k < length (graph ns) \<and> fn (graph ns ! k) = Reduction} = {best ns}
     \<and> length (compared ns) = 20
     \<and> deps (graph ns) (best ns) = set (compared ns)
     \<and> card (deps (graph ns) (best ns)) = 20
     \<and> (\<forall>st. sound (graph ns) st \<longrightarrow> started st (best ns)
           \<longrightarrow> (\<forall>c\<in>set (compared ns). finished st c))
     \<and> (\<forall>evs st. run call_task (graph ns) (submit (graph ns) (best ns)) evs = Some st \<longrightarrow>
           (\<forall>k. count_list evs (Start k) \<le> 1 \<and> count_list evs (Finish k) \<le> 1)
         \<and> (started st (best ns) \<longrightarrow> (\<forall>c\<in>set (compared ns). finished st c))
         \<and> (\<forall>pre post. evs = pre @ Start (best ns) # post \<longrightarrow>
               (\<exists>st1. run call_task (graph ns) (submit (graph ns) (best ns)) pre = Some st1
                  \<and> (\<forall>c\<in>set (compared ns). finished st1 c)))
         \<and> (settled st \<longrightarrow> finished st (best ns)
               \<and> count_list evs (Start (best ns)) = 1
               \<and> count_list evs (Finish (best ns)) = 1))
     \<and> (\<exists>evs st. run call_task (graph ns) (submit (graph ns) (best ns)) evs = Some st
           \<and> settled st)"
proof -
  let ?ns = "etl_closed (filenames 10) ''sql://mytable'' 20 rnd new_session"
  let ?g = "graph ?ns" and ?b = "best ?ns"
  have c: "cell5 rnd = Inr ?ns" by (rule cell5_eq)
  have wf: "well_formed ?g"
    by (rule etl_closed_well_formed[OF new_session_well_formed]) (simp add: length_filenames)
  have wc: "well_called ?g"
    by (rule etl_closed_well_called[OF new_session_well_called])
  have bl: "?b < length ?g" by (rule closed_best_last)
  have at: "?g ! ?b = \<lparr>fn = Reduction, args = [Container (map Deferred (compared ?ns))]\<rparr>"
    by (simp add: closed_at(6) reduction_node_def)
  have kind: "{k. k < length ?g \<and> fn (?g ! k) = Reduction} = {?b}"
    by (rule closed_kind_sets) (simp add: new_session_simps)
  have len: "length (compared ?ns) = 20" by (simp add: closed_length)
  have nd: "node_deps (?g ! ?b) = compared ?ns"
    by (simp add: closed_at(6) node_deps_simps)
  then have d: "deps ?g ?b = set (compared ?ns)" by (simp add: deps_def)
  have "card (set (compared ?ns)) = length (compared ?ns)"
    by (rule distinct_card) (rule closed_distinct)
  with d len have card: "card (deps ?g ?b) = 20" by simp
  have snd: "\<forall>st. sound ?g st \<longrightarrow> started st ?b \<longrightarrow> (\<forall>c\<in>set (compared ?ns). finished st c)"
    using bl d by (auto simp: sound_def)
  have every: "\<forall>evs st. run call_task ?g (submit ?g ?b) evs = Some st \<longrightarrow>
           (\<forall>k. count_list evs (Start k) \<le> 1 \<and> count_list evs (Finish k) \<le> 1)
         \<and> (started st ?b \<longrightarrow> (\<forall>c\<in>set (compared ?ns). finished st c))
         \<and> (\<forall>pre post. evs = pre @ Start ?b # post \<longrightarrow>
               (\<exists>st1. run call_task ?g (submit ?g ?b) pre = Some st1
                  \<and> (\<forall>c\<in>set (compared ?ns). finished st1 c)))
         \<and> (settled st \<longrightarrow> finished st ?b
               \<and> count_list evs (Start ?b) = 1 \<and> count_list evs (Finish ?b) = 1)"
  proof (intro allI impI)
    fix evs st
    assume r: "run call_task ?g (submit ?g ?b) evs = Some st"
    have once: "\<forall>k. count_list evs (Start k) \<le> 1 \<and> count_list evs (Finish k) \<le> 1"
      using start_once[OF r] finish_once[OF r] by blast
    have after: "started st ?b \<longrightarrow> (\<forall>c\<in>set (compared ?ns). finished st c)"
      using snd run_sound[OF submit_sound r] by blast
    have split: "\<forall>pre post. evs = pre @ Start ?b # post \<longrightarrow>
               (\<exists>st1. run call_task ?g (submit ?g ?b) pre = Some st1
                  \<and> (\<forall>c\<in>set (compared ?ns). finished st1 c))"
    proof (intro allI impI)
      fix pre post assume e: "evs = pre @ Start ?b # post"
      from r e obtain st1 where r1: "run call_task ?g (submit ?g ?b) pre = Some st1"
        and f: "fire call_task ?g st1 (Start ?b) \<noteq> None"
        by (auto simp: run_append split: option.splits)
      from f have "ready ?g st1 ?b" by (auto split: if_splits)
      with nd have "\<forall>c\<in>set (compared ?ns). finished st1 c"
        by (simp add: ready_def list_all_iff)
      with r1 show "\<exists>st1. run call_task ?g (submit ?g ?b) pre = Some st1
                  \<and> (\<forall>c\<in>set (compared ?ns). finished st1 c)"
        by (intro exI[of _ st1]) simp
    qed
    have fin: "settled st \<longrightarrow> finished st ?b
               \<and> count_list evs (Start ?b) = 1 \<and> count_list evs (Finish ?b) = 1"
    proof
      assume s: "settled st"
      have l: "length st = length ?g"
        using run_length[OF r] by (simp add: length_submit)
      from notebook_settled_finished[OF wc r s graph_of_self bl] bl l
      have f: "finished st ?b" by (simp add: finished_def)
      then have st: "started st ?b" by (simp add: started_def finished_def)
      have p: "submit ?g ?b ! ?b = Pending"
        using bl by (simp add: submit_nth graph_of_self)
      have "Start ?b \<in> set evs"
        using start_needed[OF r _ p st] bl by (simp add: length_submit)
      then have "count_list evs (Start ?b) \<noteq> 0"
        by (simp add: count_list_0_iff)
      with start_once[OF r, of ?b] have n1: "count_list evs (Start ?b) = 1" by simp
      have "Finish ?b \<in> set evs"
        using finish_needed[OF r _ _ f] p bl by (simp add: length_submit)
      then have "count_list evs (Finish ?b) \<noteq> 0"
        by (simp add: count_list_0_iff)
      with finish_once[OF r, of ?b] have n2: "count_list evs (Finish ?b) = 1" by simp
      from f n1 n2 show "finished st ?b
               \<and> count_list evs (Start ?b) = 1 \<and> count_list evs (Finish ?b) = 1"
        by simp
    qed
    from once after split fin
    show "(\<forall>k. count_list evs (Start k) \<le> 1 \<and> count_list evs (Finish k) \<le> 1)
         \<and> (started st ?b \<longrightarrow> (\<forall>c\<in>set (compared ?ns). finished st c))
         \<and> (\<forall>pre post. evs = pre @ Start ?b # post \<longrightarrow>
               (\<exists>st1. run call_task ?g (submit ?g ?b) pre = Some st1
                  \<and> (\<forall>c\<in>set (compared ?ns). finished st1 c)))
         \<and> (settled st \<longrightarrow> finished st ?b
               \<and> count_list evs (Start ?b) = 1 \<and> count_list evs (Finish ?b) = 1)"
      by (intro conjI) assumption+
  qed
  from settled_execution_exists[OF wf bl, of call_task]
  have ex: "\<exists>evs st. run call_task ?g (submit ?g ?b) evs = Some st \<and> settled st" .
  from c at kind len d card snd every ex show ?thesis
    by (intro exI[of _ ?ns] conjI) assumption+
qed

theorem cell5_reduction_witness:
  "\<exists>ns evs st. cell5 (\<lambda>p. p) = Inr ns \<and> best ns = 49 \<and> compared ns ! 0 = 29
     \<and> card (deps (graph ns) (best ns)) = 20
     \<and> run call_task (graph ns) (submit (graph ns) (best ns)) evs = Some st \<and> settled st
     \<and> finished st (best ns)
     \<and> count_list evs (Start (best ns)) = 1 \<and> count_list evs (Finish (best ns)) = 1
     \<and> finished st (compared ns ! 0)"
proof -
  from cell5_reduction[of "\<lambda>p. p"] obtain ns where
    c: "cell5 (\<lambda>p. p) = Inr ns" and len: "length (compared ns) = 20"
    and card: "card (deps (graph ns) (best ns)) = 20"
    and every: "\<forall>evs st. run call_task (graph ns) (submit (graph ns) (best ns)) evs = Some st \<longrightarrow>
           (\<forall>k. count_list evs (Start k) \<le> 1 \<and> count_list evs (Finish k) \<le> 1)
         \<and> (started st (best ns) \<longrightarrow> (\<forall>c\<in>set (compared ns). finished st c))
         \<and> (\<forall>pre post. evs = pre @ Start (best ns) # post \<longrightarrow>
               (\<exists>st1. run call_task (graph ns) (submit (graph ns) (best ns)) pre = Some st1
                  \<and> (\<forall>c\<in>set (compared ns). finished st1 c)))
         \<and> (settled st \<longrightarrow> finished st (best ns)
               \<and> count_list evs (Start (best ns)) = 1
               \<and> count_list evs (Finish (best ns)) = 1)"
    and ex: "\<exists>evs st. run call_task (graph ns) (submit (graph ns) (best ns)) evs = Some st
           \<and> settled st"
    by - (erule exE, elim conjE, rule that, assumption+)
  from ex obtain evs st
    where r: "run call_task (graph ns) (submit (graph ns) (best ns)) evs = Some st"
      and s: "settled st"
    by blast
  from every[rule_format, OF r] s have f: "finished st (best ns)"
    and n: "count_list evs (Start (best ns)) = 1" "count_list evs (Finish (best ns)) = 1"
    by simp_all
  from f have "started st (best ns)" by (simp add: started_def finished_def)
  with every[rule_format, OF r] have all: "\<forall>c\<in>set (compared ns). finished st c" by simp
  have "compared ns ! 0 \<in> set (compared ns)"
    using len by (intro nth_mem) simp
  with all have f0: "finished st (compared ns ! 0)" by blast
  from c have ns: "ns = etl_closed (filenames 10) ''sql://mytable'' 20 (\<lambda>p. p) new_session"
    by (simp add: cell5_eq)
  have v: "best ns = 49" "compared ns ! 0 = 29"
    unfolding ns by (simp_all add: closed_fields closed_nth length_filenames new_session_simps)
  from c v card r s f n f0 show ?thesis
    by (intro exI[of _ ns] exI[of _ evs] exI[of _ st] conjI) assumption+
qed

section \<open>Dependency order and parallel eligibility\<close>





















end
